theory Spec2Isabelle
  imports Complex_Main "HOL-Library.Sublist" "HOL-Library.Word"
begin

section \<open>JavaScript values as the interceptor sees them\<close>

text \<open>
  A JavaScript string is modelled as a \<^typ>\<open>string\<close>, one \<^typ>\<open>char\<close> per code unit.
  The value \<open>JSON.parse\<close> returns is a \<open>json\<close>: an object is the list of its own
  properties in the order \<open>Object.entries\<close> enumerates them (so the keys of one object
  are pairwise distinct), a number is the parsed value (only its being zero and its
  conversion to a property key are ever used). \<open>undefined\<close> is the \<open>None\<close> of an option.
\<close>

datatype json =
    JNull
  | JBool bool
  | JNum rat
  | JStr string
  | JArr "json list"
  | JObj "(string \<times> json) list"

datatype js_error = TypeError | SyntaxError | RangeError | NetworkError

text \<open>\<open>!!x\<close>: the falsy values among parsed JSON are \<open>null\<close>, \<open>false\<close>, \<open>0\<close> and \<open>""\<close>.\<close>

fun truthy :: "json \<Rightarrow> bool" where
  "truthy JNull = False"
| "truthy (JBool b) = b"
| "truthy (JNum n) = (n \<noteq> 0)"
| "truthy (JStr s) = (s \<noteq> [])"
| "truthy (JArr xs) = True"
| "truthy (JObj kvs) = True"

fun truthy_opt :: "json option \<Rightarrow> bool" where
  "truthy_opt None = False"
| "truthy_opt (Some x) = truthy x"

text \<open>\<open>x == null\<close>: true of \<open>null\<close> and of \<open>undefined\<close> only.\<close>

fun nullish :: "json option \<Rightarrow> bool" where
  "nullish None = True"
| "nullish (Some JNull) = True"
| "nullish (Some x) = False"

text \<open>
  \<open>x.name\<close> for a value that is not \<open>null\<close>, and for the property names this program
  reads (\<open>mapping\<close>, \<open>message\<close>, \<open>id\<close>, \<open>create_time\<close>, \<open>author\<close>, \<open>role\<close>, \<open>items\<close>,
  \<open>update_time\<close>, \<open>title\<close>, \<open>type\<close>, \<open>input_message\<close>, \<open>v\<close>): none of them is on a
  prototype, so only an object has them, and only as an own property.
\<close>

fun get_prop :: "json \<Rightarrow> string \<Rightarrow> json option" where
  "get_prop (JObj kvs) name = map_of kvs name"
| "get_prop x name = None"

text \<open>\<open>x.name\<close> in general: reading a property of \<open>null\<close> throws a TypeError.\<close>

fun member :: "json \<Rightarrow> string \<Rightarrow> js_error + json option" where
  "member JNull name = Inl TypeError"
| "member x name = Inr (get_prop x name)"

text \<open>\<open>x?.name\<close>: \<open>undefined\<close> when \<open>x\<close> is \<open>null\<close> or \<open>undefined\<close>.\<close>

fun opt_member :: "json option \<Rightarrow> string \<Rightarrow> json option" where
  "opt_member None name = None"
| "opt_member (Some x) name = get_prop x name"

text \<open>\<open>x || null\<close>.\<close>

fun or_null :: "json option \<Rightarrow> json" where
  "or_null None = JNull"
| "or_null (Some x) = (if truthy x then x else JNull)"

text \<open>
  The values of \<open>Object.entries(x)\<close> for a value \<open>x\<close> that is not \<open>null\<close>: the property
  values of an object, the elements of an array, the one-character strings of a
  string, nothing for a number or a boolean.
\<close>

fun entry_values :: "json \<Rightarrow> json list" where
  "entry_values (JObj kvs) = map snd kvs"
| "entry_values (JArr xs) = xs"
| "entry_values (JStr s) = map (\<lambda>c. JStr [c]) s"
| "entry_values x = []"

fun join_comma :: "string list \<Rightarrow> string" where
  "join_comma [] = []"
| "join_comma [s] = s"
| "join_comma (s # t # ss) = s @ '','' @ join_comma (t # ss)"

text \<open>
  \<open>obj[x] = ...\<close> converts \<open>x\<close> to a property key with \<open>ToString\<close>. The decimal form
  of a number is the platform's, passed as \<open>ns\<close>. An object is converted by its
  \<open>toString\<close> method: a parsed object that has a key \<open>toString\<close> of its own hides the
  inherited method behind a value that cannot be called, and the conversion throws a
  TypeError; any other parsed object gives \<open>[object Object]\<close>. An array joins the
  conversions of its elements, \<open>null\<close> giving the empty string.
\<close>

fun to_string :: "(rat \<Rightarrow> string) \<Rightarrow> json \<Rightarrow> js_error + string"
  and to_strings :: "(rat \<Rightarrow> string) \<Rightarrow> json list \<Rightarrow> js_error + string list" where
  "to_string ns JNull = Inr ''null''"
| "to_string ns (JBool b) = Inr (if b then ''true'' else ''false'')"
| "to_string ns (JNum n) = Inr (ns n)"
| "to_string ns (JStr s) = Inr s"
| "to_string ns (JArr xs) =
     (case to_strings ns xs of Inl e \<Rightarrow> Inl e | Inr ss \<Rightarrow> Inr (join_comma ss))"
| "to_string ns (JObj kvs) =
     (if ''toString'' \<in> fst ` set kvs then Inl TypeError else Inr ''[object Object]'')"
| "to_strings ns [] = Inr []"
| "to_strings ns (x # xs) =
     (case (if x = JNull then Inr [] else to_string ns x) of
        Inl e \<Rightarrow> Inl e
      | Inr s \<Rightarrow> (case to_strings ns xs of Inl e \<Rightarrow> Inl e | Inr ss \<Rightarrow> Inr (s # ss)))"

text \<open>
  \<open>m.set(k, v)\<close> on a \<open>Map\<close>: the value of a key that is present is replaced where it
  stands, a new key goes last.
\<close>

primrec set_key :: "string \<Rightarrow> 'v \<Rightarrow> (string \<times> 'v) list \<Rightarrow> (string \<times> 'v) list" where
  "set_key k v [] = [(k, v)]"
| "set_key k v (p # ps) = (if fst p = k then (k, v) # ps else p # set_key k v ps)"

definition has_key :: "(string \<times> 'v) list \<Rightarrow> string \<Rightarrow> bool" where
  "has_key obj k = (k \<in> fst ` set obj)"

text \<open>Every entry of a list put into a \<open>Map\<close> in turn.\<close>

definition set_all :: "(string \<times> 'v) list \<Rightarrow> (string \<times> 'v) list \<Rightarrow> (string \<times> 'v) list" where
  "set_all m es = fold (\<lambda>(k, v) t. set_key k v t) es m"

text \<open>
  \<open>obj[k] = v\<close> on a plain object, for a value \<open>v\<close> that is an object: as on a \<open>Map\<close>,
  but for the key \<open>__proto__\<close>, which names the accessor inherited from
  \<open>Object.prototype\<close>: the assignment then replaces the prototype of \<open>obj\<close> and gives it
  no key of its own, and \<open>Object.keys\<close>, \<open>Object.entries\<close>, \<open>Object.assign\<close> and the
  copy \<open>postMessage\<close> makes see own keys only. (A plain object lists keys that are
  array indices first; no result below depends on the order.)
\<close>

definition assign_key :: "string \<Rightarrow> 'v \<Rightarrow> (string \<times> 'v) list \<Rightarrow> (string \<times> 'v) list" where
  "assign_key k v obj = (if k = ''__proto__'' then obj else set_key k v obj)"

text \<open>\<open>Object.assign(target, source)\<close>: every property of the source, in its order,
  assigned to the target.\<close>

definition object_assign :: "(string \<times> 'v) list \<Rightarrow> (string \<times> 'v) list \<Rightarrow> (string \<times> 'v) list" where
  "object_assign target source = fold (\<lambda>(k, v) t. assign_key k v t) source target"

section \<open>URL classification of the fetch wrapper\<close>

text \<open>\<open>s.includes(pat)\<close>.\<close>

definition str_includes :: "string \<Rightarrow> string \<Rightarrow> bool" where
  "str_includes s pat = list_ex (prefix pat) (suffixes s)"

definition hex_or_hyphen :: "char \<Rightarrow> bool" where
  "hex_or_hyphen c = (c \<in> set ''0123456789abcdef-'')"

text \<open>
  \<open>/\/backend-api\/conversation\/[0-9a-f-]{20,}/.test(url)\<close>: somewhere in the URL the
  literal is followed by at least twenty characters of the class.
\<close>

definition detail_regex :: "string \<Rightarrow> bool" where
  "detail_regex url =
     list_ex (\<lambda>t. prefix ''/backend-api/conversation/'' t \<and>
                  20 \<le> length (takeWhile hex_or_hyphen (drop (length ''/backend-api/conversation/'') t)))
             (suffixes url)"

text \<open>
  \<open>/\/backend-api\/conversations(\?|$)/.test(url)\<close>: the literal, then a question mark
  or the end of the URL.
\<close>

definition list_regex :: "string \<Rightarrow> bool" where
  "list_regex url =
     list_ex (\<lambda>t. prefix ''/backend-api/conversations'' t \<and>
                  (case drop (length ''/backend-api/conversations'') t of
                     [] \<Rightarrow> True
                   | c # cs \<Rightarrow> c = CHR ''?''))
             (suffixes url)"

text \<open>\<open>/\/backend-api\/f\/conversation$/.test(url)\<close>: the URL ends with the literal.\<close>

definition stream_regex :: "string \<Rightarrow> bool" where
  "stream_regex url = suffix ''/backend-api/f/conversation'' url"

definition is_detail :: "string \<Rightarrow> bool" where
  "is_detail url =
     (detail_regex url \<and>
      \<not> str_includes url ''/backend-api/conversation/limit'' \<and>
      \<not> str_includes url ''/backend-api/conversations'')"

definition is_list :: "string \<Rightarrow> bool" where
  "is_list url = list_regex url"

section \<open>Records, buffers and the message channel\<close>

text \<open>
  \<open>types.ts\<close> declares \<open>createTime: number\<close> and \<open>role: string | null\<close>; what is stored is
  the JSON value found in the response, with no conversion, so the fields hold a
  \<open>json\<close>. The fields of \<open>ConversationTimestamp\<close> are \<open>createTime\<close>, \<open>updateTime\<close> and
  \<open>title\<close>; the first is named \<open>conv_createTime\<close> here, apart from the message field.
\<close>

record MessageTimestamp =
  createTime :: json
  role :: json

record ConversationTimestamp =
  conv_createTime :: json
  updateTime :: json
  title :: json

type_synonym timestamps = "(string \<times> MessageTimestamp) list"
type_synonym conversations = "(string \<times> ConversationTimestamp) list"

datatype message =
    TIMEGPT_TIMESTAMPS timestamps
  | TIMEGPT_CONVERSATIONS conversations
  | TIMEGPT_DRAIN_REQUEST
  | OtherMessage

record message_event =
  event_origin :: string
  event_data :: message

text \<open>
  The interceptor's module state: its two buffers, and \<open>posted\<close>, the messages it has
  handed to \<open>window.postMessage\<close> with the page's own origin as target, oldest first.
\<close>

record interceptor =
  timestampBuffer :: timestamps
  conversationBuffer :: conversations
  posted :: "message list"

definition interceptor_init :: interceptor where
  "interceptor_init = \<lparr>timestampBuffer = [], conversationBuffer = [], posted = []\<rparr>"

text \<open>\<open>Object.assign(timestampBuffer, timestamps); window.postMessage({type, timestamps}, origin)\<close>.\<close>

definition broadcast_timestamps :: "timestamps \<Rightarrow> interceptor \<Rightarrow> interceptor" where
  "broadcast_timestamps ts st =
     st\<lparr>timestampBuffer := object_assign (timestampBuffer st) ts,
        posted := posted st @ [TIMEGPT_TIMESTAMPS ts]\<rparr>"

definition broadcast_conversations :: "conversations \<Rightarrow> interceptor \<Rightarrow> interceptor" where
  "broadcast_conversations cs st =
     st\<lparr>conversationBuffer := object_assign (conversationBuffer st) cs,
        posted := posted st @ [TIMEGPT_CONVERSATIONS cs]\<rparr>"

section \<open>Extraction\<close>

text \<open>
  The test and the assignment the three message paths share, for a message \<open>msg\<close> that
  may be \<open>undefined\<close>:
  \<^verbatim>\<open>if (!msg?.id || msg.create_time == null) continue;
  timestamps[msg.id] = { createTime: msg.create_time, role: msg.author?.role || null };\<close>
  \<open>None\<close> when the message is passed over, the key and the entry otherwise; the
  conversion of the id to a key may throw.
\<close>

definition message_entry ::
  "(rat \<Rightarrow> string) \<Rightarrow> json option \<Rightarrow> js_error + (string \<times> MessageTimestamp) option" where
  "message_entry ns msg =
     (case opt_member msg ''id'' of
        None \<Rightarrow> Inr None
      | Some i \<Rightarrow>
          if \<not> truthy i then Inr None
          else (case opt_member msg ''create_time'' of
                  None \<Rightarrow> Inr None
                | Some t \<Rightarrow>
                    if t = JNull then Inr None
                    else (case to_string ns i of
                            Inl e \<Rightarrow> Inl e
                          | Inr k \<Rightarrow>
                              Inr (Some (k,
                                \<lparr>createTime = t,
                                 role = or_null (opt_member (opt_member msg ''author'') ''role'')\<rparr>)))))"

text \<open>
  The loop of \<open>extractMessageTimestamps\<close> over the nodes of the mapping, carrying the
  local object \<open>timestamps\<close> and \<open>count\<close>. \<open>node.message\<close> throws on a \<open>null\<close> node.
\<close>

fun detail_loop :: "(rat \<Rightarrow> string) \<Rightarrow> json list \<Rightarrow> timestamps \<times> nat \<Rightarrow> js_error + timestamps \<times> nat" where
  "detail_loop ns [] acc = Inr acc"
| "detail_loop ns (node # nodes) (ts, count) =
     (case member node ''message'' of
        Inl e \<Rightarrow> Inl e
      | Inr msg \<Rightarrow>
          (case message_entry ns msg of
             Inl e \<Rightarrow> Inl e
           | Inr None \<Rightarrow> detail_loop ns nodes (ts, count)
           | Inr (Some (k, e)) \<Rightarrow> detail_loop ns nodes (assign_key k e ts, count + 1)))"

definition extractMessageTimestamps :: "(rat \<Rightarrow> string) \<Rightarrow> json \<Rightarrow> interceptor \<Rightarrow> js_error + interceptor" where
  "extractMessageTimestamps ns data st =
     (case get_prop data ''mapping'' of
        None \<Rightarrow> Inr st
      | Some mapping \<Rightarrow>
          if \<not> truthy mapping then Inr st
          else (case detail_loop ns (entry_values mapping) ([], 0) of
                  Inl e \<Rightarrow> Inl e
                | Inr (ts, count) \<Rightarrow>
                    if count = 0 then Inr st else Inr (broadcast_timestamps ts st)))"

text \<open>
  The body of the loop of \<open>extractConversationTimestamps\<close>:
  \<^verbatim>\<open>if (!item.id || !item.create_time) continue;
  conversations[item.id] = { createTime: item.create_time,
    updateTime: item.update_time || null, title: item.title || null };\<close>
  for an item that is not \<open>null\<close>; the conversion of the id to a key may throw.
\<close>

definition conversation_entry ::
  "(rat \<Rightarrow> string) \<Rightarrow> json \<Rightarrow> js_error + (string \<times> ConversationTimestamp) option" where
  "conversation_entry ns item =
     (case get_prop item ''id'' of
        None \<Rightarrow> Inr None
      | Some i \<Rightarrow>
          if \<not> truthy i then Inr None
          else (case get_prop item ''create_time'' of
                  None \<Rightarrow> Inr None
                | Some t \<Rightarrow>
                    if \<not> truthy t then Inr None
                    else (case to_string ns i of
                            Inl e \<Rightarrow> Inl e
                          | Inr k \<Rightarrow>
                              Inr (Some (k,
                                \<lparr>conv_createTime = t,
                                 updateTime = or_null (get_prop item ''update_time''),
                                 title = or_null (get_prop item ''title'')\<rparr>)))))"

fun list_loop :: "(rat \<Rightarrow> string) \<Rightarrow> json list \<Rightarrow> conversations \<times> nat \<Rightarrow> js_error + conversations \<times> nat" where
  "list_loop ns [] acc = Inr acc"
| "list_loop ns (item # items) (cs, count) =
     (if item = JNull then Inl TypeError
      else (case conversation_entry ns item of
              Inl e \<Rightarrow> Inl e
            | Inr None \<Rightarrow> list_loop ns items (cs, count)
            | Inr (Some (k, e)) \<Rightarrow> list_loop ns items (assign_key k e cs, count + 1)))"

definition extractConversationTimestamps :: "(rat \<Rightarrow> string) \<Rightarrow> json \<Rightarrow> interceptor \<Rightarrow> js_error + interceptor" where
  "extractConversationTimestamps ns data st =
     (case get_prop data ''items'' of
        Some (JArr items) \<Rightarrow>
          (case list_loop ns items ([], 0) of
             Inl e \<Rightarrow> Inl e
           | Inr (cs, count) \<Rightarrow>
               if count = 0 then Inr st else Inr (broadcast_conversations cs st))
      | _ \<Rightarrow> Inr st)"

text \<open>
  One envelope of \<open>extractStreamTimestamp\<close> written into the local object \<open>timestamps\<close>:
  \<^verbatim>\<open>if (msg.id && msg.create_time != null) timestamps[msg.id] = {...};\<close>
\<close>

definition stream_message :: "(rat \<Rightarrow> string) \<Rightarrow> json option \<Rightarrow> timestamps \<Rightarrow> js_error + timestamps" where
  "stream_message ns msg ts =
     (case message_entry ns msg of
        Inl e \<Rightarrow> Inl e
      | Inr None \<Rightarrow> Inr ts
      | Inr (Some (k, e)) \<Rightarrow> Inr (assign_key k e ts))"

text \<open>
  \<open>extractStreamTimestamp\<close>: the \<open>input_message\<close> envelope, then the delta envelope
  \<open>data.v.message\<close>; both write into one local object. Each message is truthy where it
  is read; only the conversion of an id to a key can throw, and then nothing has been
  written to the buffer or posted.
\<close>

definition extractStreamTimestamp :: "(rat \<Rightarrow> string) \<Rightarrow> json \<Rightarrow> interceptor \<Rightarrow> js_error + interceptor" where
  "extractStreamTimestamp ns data st =
     (case (if get_prop data ''type'' = Some (JStr ''input_message'') \<and>
               truthy_opt (get_prop data ''input_message'')
            then stream_message ns (get_prop data ''input_message'') []
            else Inr []) of
        Inl e \<Rightarrow> Inl e
      | Inr ts1 \<Rightarrow>
          (case (if truthy_opt (opt_member (get_prop data ''v'') ''message'')
                 then stream_message ns (opt_member (get_prop data ''v'') ''message'') ts1
                 else Inr ts1) of
             Inl e \<Rightarrow> Inl e
           | Inr ts2 \<Rightarrow> Inr (if ts2 = [] then st else broadcast_timestamps ts2 st)))"

section \<open>The platform, responses and the fetch wrapper\<close>

type_synonym byte = "8 word"

text \<open>
  What the browser provides and the program only calls: the decimal form of a number
  used as a property key, \<open>JSON.parse\<close> (\<open>None\<close> when it throws), the UTF-8 decoding of
  a whole body, and a \<open>TextDecoder\<close> used with \<open>{stream: true}\<close>, an object with a state
  of its own (the bytes of a character cut by a chunk boundary).
\<close>

record 'd platform =
  numToString :: "rat \<Rightarrow> string"
  JSON_parse :: "string \<Rightarrow> json option"
  utf8_decode :: "byte list \<Rightarrow> string"
  decoder_new :: 'd
  decoder_decode :: "'d \<Rightarrow> byte list \<Rightarrow> string \<times> 'd"

text \<open>
  A \<open>Response\<close>: \<open>body\<close> is \<open>None\<close> for a null body, and otherwise the chunks a reader of
  the body is given, in order, before it is told the stream is done.
\<close>

record response =
  status :: nat
  statusText :: string
  content_type :: "string option"
  body :: "byte list list option"

text \<open>\<open>await response.clone().json()\<close>; \<open>None\<close> when the promise rejects.\<close>

definition response_json :: "'d platform \<Rightarrow> response \<Rightarrow> json option" where
  "response_json P r =
     JSON_parse P (utf8_decode P (concat (case body r of None \<Rightarrow> [] | Some chunks \<Rightarrow> chunks)))"

text \<open>
  The stream \<open>tapSSEStream\<close> builds: the reader of the original body with the chunks it
  has yet to deliver, the decoder, the text buffer, the chunks passed to
  \<open>controller.enqueue\<close> so far, and whether \<open>controller.close\<close> was called.
\<close>

record 'd tap =
  reader :: "byte list list"
  decoder :: 'd
  buffer :: string
  enqueued :: "byte list list"
  closed :: bool

text \<open>
  \<open>tapSSEStream\<close>. \<open>response.body!.getReader()\<close> throws on a null body, and
  \<open>new Response(stream, {status, ...})\<close> throws for a status outside 200..599 or a
  null-body status.
\<close>

definition tapSSEStream :: "'d platform \<Rightarrow> response \<Rightarrow> js_error + 'd tap" where
  "tapSSEStream P r =
     (case body r of
        None \<Rightarrow> Inl TypeError
      | Some chunks \<Rightarrow>
          if status r < 200 \<or> 599 < status r then Inl RangeError
          else if status r \<in> {204, 205, 304} then Inl TypeError
          else Inr \<lparr>reader = chunks, decoder = decoder_new P, buffer = [],
                    enqueued = [], closed = False\<rparr>)"

datatype fetch_input = StringInput string | RequestInput string | URLInput string | OtherInput

fun resolve_url :: "fetch_input \<Rightarrow> string" where
  "resolve_url (StringInput s) = s"
| "resolve_url (RequestInput u) = u"
| "resolve_url (URLInput h) = h"
| "resolve_url OtherInput = []"

text \<open>What the wrapper resolves to: the response of the original fetch, or a new
  \<open>Response\<close> around the tap, with the status and headers of the response given.\<close>

datatype 'd returned = Original response | Tapped response "'d tap"

definition is_live_stream :: "string \<Rightarrow> response \<Rightarrow> bool" where
  "is_live_stream url r =
     (stream_regex url \<and> body r \<noteq> None \<and>
      (case content_type r of None \<Rightarrow> False | Some ct \<Rightarrow> str_includes ct ''text/event-stream''))"

text \<open>
  The replacement of \<open>window.fetch\<close>, given the outcome of the original fetch (\<open>Inl\<close> when
  it rejects: the wrapper then rejects too). The three tests are three separate \<open>if\<close>s.
  An exception of \<open>clone\<close>, \<open>json\<close> or an extraction is caught and dropped.
\<close>

definition fetch_wrapper ::
  "'d platform \<Rightarrow> fetch_input \<Rightarrow> js_error + response \<Rightarrow> interceptor \<Rightarrow> (js_error + 'd returned) \<times> interceptor" where
  "fetch_wrapper P input outcome st =
     (case outcome of
        Inl e \<Rightarrow> (Inl e, st)
      | Inr r \<Rightarrow>
          (let url = resolve_url input;
               st1 = (if is_detail url
                      then (case response_json P r of
                              None \<Rightarrow> st
                            | Some json \<Rightarrow>
                                (case extractMessageTimestamps (numToString P) json st of
                                   Inl e \<Rightarrow> st | Inr st' \<Rightarrow> st'))
                      else st);
               st2 = (if is_list url
                      then (case response_json P r of
                              None \<Rightarrow> st1
                            | Some json \<Rightarrow>
                                (case extractConversationTimestamps (numToString P) json st1 of
                                   Inl e \<Rightarrow> st1 | Inr st' \<Rightarrow> st'))
                      else st1)
           in if is_live_stream url r
              then (case tapSSEStream P r of
                      Inl e \<Rightarrow> (Inr (Original r), st2)
                    | Inr t \<Rightarrow> (Inr (Tapped r t), st2))
              else (Inr (Original r), st2)))"

section \<open>The tap on the event stream\<close>

text \<open>\<open>s.split(sep)\<close> for a separator that is not empty; \<open>cur\<close> is the piece being read,
  reversed.\<close>

function split_from :: "string \<Rightarrow> string \<Rightarrow> string \<Rightarrow> string list" where
  "split_from sep cur [] = [rev cur]"
| "split_from sep cur (c # cs) =
     (if sep \<noteq> [] \<and> prefix sep (c # cs)
      then rev cur # split_from sep [] (drop (length sep) (c # cs))
      else split_from sep (c # cur) cs)"
  by pat_completeness auto
termination
  by (relation "measure (\<lambda>(sep, cur, s). length s)") auto

definition split :: "string \<Rightarrow> string \<Rightarrow> string list" where
  "split s sep = split_from sep [] s"

definition newline :: string where
  "newline = [CHR 0x0A]"

text \<open>\<open>processSSEEvent\<close>: the payload of the last \<open>data: \<close> line, parsed and inspected;
  an exception of \<open>JSON.parse\<close> or of the inspection is caught and dropped.\<close>

definition processSSEEvent :: "'d platform \<Rightarrow> string \<Rightarrow> interceptor \<Rightarrow> interceptor" where
  "processSSEEvent P raw st =
     (let jsonStr = fold (\<lambda>line js. if prefix ''data: '' line then drop 6 line else js)
                         (split raw newline) []
      in if jsonStr = [] \<or> jsonStr = ''[DONE]'' then st
         else (case JSON_parse P jsonStr of
                 None \<Rightarrow> st
               | Some data \<Rightarrow>
                   (case extractStreamTimestamp (numToString P) data st of
                      Inl e \<Rightarrow> st | Inr st' \<Rightarrow> st')))"

definition processSSEBuffer :: "'d platform \<Rightarrow> string \<Rightarrow> interceptor \<Rightarrow> interceptor" where
  "processSSEBuffer P buf st = fold (processSSEEvent P) (split buf (newline @ newline)) st"

text \<open>
  One call of \<open>pull\<close>: the reader reports the end (the rest of the buffer is processed
  and the stream closed) or gives a chunk (decoded onto the buffer, the complete events
  processed, the last piece kept, and the chunk itself enqueued).
\<close>

definition pull :: "'d platform \<Rightarrow> 'd tap \<times> interceptor \<Rightarrow> 'd tap \<times> interceptor" where
  "pull P = (\<lambda>(t, st).
     (case reader t of
        [] \<Rightarrow> (t\<lparr>closed := True\<rparr>,
               if buffer t \<noteq> [] then processSSEBuffer P (buffer t) st else st)
      | v # rest \<Rightarrow>
          (let (text, d) = decoder_decode P (decoder t) v;
               parts = split (buffer t @ text) (newline @ newline)
           in (t\<lparr>reader := rest, decoder := d, buffer := last parts,
                  enqueued := enqueued t @ [v]\<rparr>,
               fold (processSSEEvent P) (butlast parts) st))))"

text \<open>The host reading the tapped body to its end: \<open>pull\<close> until the stream is closed.\<close>

function read_all :: "'d platform \<Rightarrow> 'd tap \<times> interceptor \<Rightarrow> 'd tap \<times> interceptor" where
  "read_all P (t, st) = (if closed t then (t, st) else read_all P (pull P (t, st)))"
  by pat_completeness auto
termination
  by (relation "measure (\<lambda>(P, t, st). length (reader t) + (if closed t then 0 else 1))")
     (auto simp: pull_def Let_def split: list.splits prod.splits)

section \<open>The drain listener and the presenter\<close>

text \<open>The event a listener of the window receives for a message posted from the page
  itself with its own origin \<open>here\<close> (\<open>window.location.origin\<close>) as target.\<close>

definition delivered :: "string \<Rightarrow> message \<Rightarrow> message_event" where
  "delivered here m = \<lparr>event_origin = here, event_data = m\<rparr>"

definition requestDrain :: "string \<Rightarrow> message_event" where
  "requestDrain here = delivered here TIMEGPT_DRAIN_REQUEST"

definition post :: "message \<Rightarrow> interceptor \<Rightarrow> interceptor" where
  "post m st = st\<lparr>posted := posted st @ [m]\<rparr>"

definition drain_listener :: "string \<Rightarrow> message_event \<Rightarrow> interceptor \<Rightarrow> interceptor" where
  "drain_listener here event st =
     (if event_origin event \<noteq> here then st
      else if event_data event \<noteq> TIMEGPT_DRAIN_REQUEST then st
      else (let st1 = (if timestampBuffer st \<noteq> []
                       then post (TIMEGPT_TIMESTAMPS (timestampBuffer st)) st else st)
            in if conversationBuffer st1 \<noteq> []
               then post (TIMEGPT_CONVERSATIONS (conversationBuffer st1)) st1 else st1))"

datatype render = ApplyMessageTimestamps | ApplySidebarTimestamps

record presenter =
  timestampMap :: timestamps
  conversationMap :: conversations
  showMessages :: bool
  showSidebar :: bool
  rendered :: "render list"

text \<open>
  The loop of the message listener over the entries of a batch:
  \<^verbatim>\<open>if (!map.has(id)) newCount++; map.set(id, info);\<close>
\<close>

fun merge_entries :: "(string \<times> 'v) list \<Rightarrow> (string \<times> 'v) list \<times> nat \<Rightarrow> (string \<times> 'v) list \<times> nat" where
  "merge_entries [] acc = acc"
| "merge_entries ((k, info) # es) (m, newCount) =
     merge_entries es (set_key k info m, if has_key m k then newCount else newCount + 1)"

definition message_listener :: "string \<Rightarrow> message_event \<Rightarrow> presenter \<Rightarrow> presenter" where
  "message_listener here event st =
     (if event_origin event \<noteq> here then st
      else (let st1 = (case event_data event of
                         TIMEGPT_TIMESTAMPS ts \<Rightarrow>
                           (let (m, newCount) = merge_entries ts (timestampMap st, 0)
                            in st\<lparr>timestampMap := m,
                                  rendered := (if 0 < newCount \<and> showMessages st
                                               then rendered st @ [ApplyMessageTimestamps]
                                               else rendered st)\<rparr>)
                       | _ \<Rightarrow> st)
            in (case event_data event of
                  TIMEGPT_CONVERSATIONS cs \<Rightarrow>
                    (let (m, newCount) = merge_entries cs (conversationMap st1, 0)
                     in st1\<lparr>conversationMap := m,
                            rendered := (if 0 < newCount \<and> showSidebar st1
                                         then rendered st1 @ [ApplySidebarTimestamps]
                                         else rendered st1)\<rparr>)
                | _ \<Rightarrow> st1)))"

section \<open>The interceptor and the presenter as one system\<close>

text \<open>
  What changes the interceptor's state: a call of the wrapped fetch, an event of a
  tapped stream (handled by \<open>processSSEEvent\<close> when \<open>pull\<close> meets it), and a message
  event on the window.
\<close>

datatype action =
    FetchCall fetch_input "js_error + response"
  | StreamEvent string
  | WindowMessage message_event

fun interceptor_step :: "'d platform \<Rightarrow> string \<Rightarrow> action \<Rightarrow> interceptor \<Rightarrow> interceptor" where
  "interceptor_step P here (FetchCall input outcome) st = snd (fetch_wrapper P input outcome st)"
| "interceptor_step P here (StreamEvent raw) st = processSSEEvent P raw st"
| "interceptor_step P here (WindowMessage event) st = drain_listener here event st"

text \<open>The presenter's listener run on messages the page posted to itself, in order.\<close>

definition deliver :: "string \<Rightarrow> message list \<Rightarrow> presenter \<Rightarrow> presenter" where
  "deliver here ms p = fold (\<lambda>m. message_listener here (delivered here m)) ms p"

text \<open>The keys of both buffers (of both record maps) are still there afterwards.\<close>

definition keeps_keys :: "interceptor \<Rightarrow> interceptor \<Rightarrow> bool" where
  "keeps_keys st st' =
     (fst ` set (timestampBuffer st) \<subseteq> fst ` set (timestampBuffer st') \<and>
      fst ` set (conversationBuffer st) \<subseteq> fst ` set (conversationBuffer st'))"

definition presenter_keeps_keys :: "presenter \<Rightarrow> presenter \<Rightarrow> bool" where
  "presenter_keeps_keys p p' =
     (fst ` set (timestampMap p) \<subseteq> fst ` set (timestampMap p') \<and>
      fst ` set (conversationMap p) \<subseteq> fst ` set (conversationMap p'))"

text \<open>
  A posted batch is covered by a state when each of its keys is a key of the buffer of
  its category; the buffers of a state are tidy when no key stands twice in one; a
  state extends another when it keeps the keys, has posted the same messages and then
  some more, covers the new ones, and is tidy if the other is.
\<close>

definition tidy :: "interceptor \<Rightarrow> bool" where
  "tidy st = (distinct (map fst (timestampBuffer st)) \<and> distinct (map fst (conversationBuffer st)))"

fun covered :: "interceptor \<Rightarrow> message \<Rightarrow> bool" where
  "covered st (TIMEGPT_TIMESTAMPS ts) = (fst ` set ts \<subseteq> fst ` set (timestampBuffer st))"
| "covered st (TIMEGPT_CONVERSATIONS cs) = (fst ` set cs \<subseteq> fst ` set (conversationBuffer st))"
| "covered st m = True"

definition extends :: "interceptor \<Rightarrow> interceptor \<Rightarrow> bool" where
  "extends st st' =
     (keeps_keys st st' \<and>
      (\<exists>new. posted st' = posted st @ new \<and> list_all (covered st') new) \<and>
      (tidy st \<longrightarrow> tidy st'))"

text \<open>A batch built by assignments to a plain object has no key \<open>__proto__\<close>.\<close>

definition proto_free :: "(string \<times> 'v) list \<Rightarrow> bool" where
  "proto_free obj = (''__proto__'' \<notin> fst ` set obj)"

text \<open>The body of the response is not JSON, or is JSON without the property \<open>name\<close>.\<close>

definition lacks_key :: "'d platform \<Rightarrow> response \<Rightarrow> string \<Rightarrow> bool" where
  "lacks_key P r name =
     (case response_json P r of None \<Rightarrow> True | Some json \<Rightarrow> get_prop json name = None)"

section \<open>The response shapes, as declared and as the specification counts them\<close>

text \<open>
  A body of the shape the interface \<open>ConversationDetailResponse\<close> declares, where a
  field that may be absent may also be \<open>null\<close>: an object whose \<open>mapping\<close>, when there
  and not \<open>null\<close>, is an object of nodes; a node is an object whose \<open>message\<close>, when
  there and not \<open>null\<close>, is an object with \<open>id?: string\<close>, \<open>create_time?: number | null\<close>
  and \<open>author?: { role?: string }\<close>.
\<close>

fun absent_or_null :: "(json \<Rightarrow> bool) \<Rightarrow> json option \<Rightarrow> bool" where
  "absent_or_null ok None = True"
| "absent_or_null ok (Some JNull) = True"
| "absent_or_null ok (Some x) = ok x"

fun is_string :: "json \<Rightarrow> bool" where
  "is_string (JStr s) = True"
| "is_string x = False"

fun is_number :: "json \<Rightarrow> bool" where
  "is_number (JNum n) = True"
| "is_number x = False"

fun is_object :: "json \<Rightarrow> bool" where
  "is_object (JObj kvs) = True"
| "is_object x = False"

fun is_array :: "json \<Rightarrow> bool" where
  "is_array (JArr xs) = True"
| "is_array x = False"

definition conforms_author :: "json \<Rightarrow> bool" where
  "conforms_author a = (is_object a \<and> absent_or_null is_string (get_prop a ''role''))"

definition conforms_message :: "json \<Rightarrow> bool" where
  "conforms_message msg =
     (is_object msg \<and>
      absent_or_null is_string (get_prop msg ''id'') \<and>
      absent_or_null is_number (get_prop msg ''create_time'') \<and>
      absent_or_null conforms_author (get_prop msg ''author''))"

definition conforms_node :: "json \<Rightarrow> bool" where
  "conforms_node node =
     (is_object node \<and> absent_or_null conforms_message (get_prop node ''message''))"

definition mapping_nodes :: "json \<Rightarrow> json list" where
  "mapping_nodes data = (case get_prop data ''mapping'' of Some (JObj kvs) \<Rightarrow> map snd kvs | _ \<Rightarrow> [])"

definition conforms_detail :: "json \<Rightarrow> bool" where
  "conforms_detail data =
     (is_object data \<and> absent_or_null is_object (get_prop data ''mapping'') \<and>
      list_all conforms_node (mapping_nodes data))"

text \<open>The nodes the claim counts: the message has an \<open>id\<close> and a \<open>create_time\<close>, neither \<open>null\<close>.\<close>

definition claimed_node :: "json \<Rightarrow> bool" where
  "claimed_node node =
     (\<not> nullish (opt_member (get_prop node ''message'') ''id'') \<and>
      \<not> nullish (opt_member (get_prop node ''message'') ''create_time''))"

text \<open>
  The nodes the extraction counts: the \<open>id\<close> is a string that is not empty as well.
  The nodes that give an entry: those among them whose \<open>id\<close> is not \<open>__proto__\<close>. The
  entry of such a node is written from the words of the claim.
\<close>

fun string_of :: "json option \<Rightarrow> string" where
  "string_of (Some (JStr s)) = s"
| "string_of x = []"

definition node_id :: "json \<Rightarrow> string" where
  "node_id node = string_of (opt_member (get_prop node ''message'') ''id'')"

definition counted_node :: "json \<Rightarrow> bool" where
  "counted_node node = (claimed_node node \<and> node_id node \<noteq> [])"

definition kept_node :: "json \<Rightarrow> bool" where
  "kept_node node = (counted_node node \<and> node_id node \<noteq> ''__proto__'')"

definition null_when_empty :: "json option \<Rightarrow> json" where
  "null_when_empty x = (if string_of x = [] then JNull else JStr (string_of x))"

definition node_entry :: "json \<Rightarrow> string \<times> MessageTimestamp" where
  "node_entry node =
     (node_id node,
      \<lparr>createTime = (case opt_member (get_prop node ''message'') ''create_time'' of
                       Some t \<Rightarrow> t | None \<Rightarrow> JNull),
       role = null_when_empty
                (opt_member (opt_member (get_prop node ''message'') ''author'') ''role'')\<rparr>)"

text \<open>
  A body of the shape \<open>ConversationsListResponse\<close> declares, where a field that may be
  absent may also be \<open>null\<close>: \<open>items\<close>, when there and not \<open>null\<close>, is an array of
  objects with \<open>id?: string\<close>, \<open>create_time?: string\<close>, \<open>update_time?: string | null\<close>
  and \<open>title?: string | null\<close>.
\<close>

definition conforms_item :: "json \<Rightarrow> bool" where
  "conforms_item item =
     (is_object item \<and>
      absent_or_null is_string (get_prop item ''id'') \<and>
      absent_or_null is_string (get_prop item ''create_time'') \<and>
      absent_or_null is_string (get_prop item ''update_time'') \<and>
      absent_or_null is_string (get_prop item ''title''))"

definition list_items :: "json \<Rightarrow> json list" where
  "list_items data = (case get_prop data ''items'' of Some (JArr items) \<Rightarrow> items | _ \<Rightarrow> [])"

definition conforms_list :: "json \<Rightarrow> bool" where
  "conforms_list data =
     (is_object data \<and> absent_or_null is_array (get_prop data ''items'') \<and>
      list_all conforms_item (list_items data))"

text \<open>The items the claim counts: \<open>id\<close> and \<open>create_time\<close> are both there, neither \<open>null\<close>.\<close>

definition claimed_item :: "json \<Rightarrow> bool" where
  "claimed_item item =
     (\<not> nullish (get_prop item ''id'') \<and> \<not> nullish (get_prop item ''create_time''))"

text \<open>
  The items the extraction counts: neither is the empty string. The items that give
  an entry: those among them whose \<open>id\<close> is not \<open>__proto__\<close>.
\<close>

definition item_id :: "json \<Rightarrow> string" where
  "item_id item = string_of (get_prop item ''id'')"

definition counted_item :: "json \<Rightarrow> bool" where
  "counted_item item = (item_id item \<noteq> [] \<and> string_of (get_prop item ''create_time'') \<noteq> [])"

definition kept_item :: "json \<Rightarrow> bool" where
  "kept_item item = (counted_item item \<and> item_id item \<noteq> ''__proto__'')"

definition item_entry :: "json \<Rightarrow> string \<times> ConversationTimestamp" where
  "item_entry item =
     (item_id item,
      \<lparr>conv_createTime = JStr (string_of (get_prop item ''create_time'')),
       updateTime = null_when_empty (get_prop item ''update_time''),
       title = null_when_empty (get_prop item ''title'')\<rparr>)"

section \<open>A platform for concrete instances\<close>

text \<open>
  The instances below run on bodies of ASCII text: a byte is decoded to the character
  of its code, one chunk at a time with nothing held back, and \<open>JSON.parse\<close> is given for
  the documents they use (it throws on any other text). No instance uses a number as a
  property key, and the decimal form of a number is left trivial.
\<close>

definition ascii :: "string \<Rightarrow> byte list" where
  "ascii s = map (\<lambda>c. of_nat (of_char c)) s"

definition ascii_decode :: "byte list \<Rightarrow> string" where
  "ascii_decode bs = map (\<lambda>b. char_of (unat b)) bs"

definition doc_empty_object :: string where
  \<open>doc_empty_object = ''{}''\<close>

definition doc_detail :: string where
  \<open>doc_detail = ''{"mapping":{"n1":{"message":{"id":"m1","create_time":1700000000,"author":{"role":"user"}}}}}''\<close>

definition doc_detail_empty_id :: string where
  \<open>doc_detail_empty_id = ''{"mapping":{"n1":{"message":{"id":"","create_time":1700000000}}}}''\<close>

definition doc_list :: string where
  \<open>doc_list = ''{"items":[{"id":"c1","create_time":"2024-01-01T00:00:00Z"}]}''\<close>

definition doc_list_empty_id :: string where
  \<open>doc_list_empty_id = ''{"items":[{"id":"","create_time":"2024-01-01T00:00:00Z"}]}''\<close>

definition doc_input_message :: string where
  \<open>doc_input_message = ''{"type":"input_message","input_message":{"id":"m2","create_time":1700000100}}''\<close>

definition json_detail :: json where
  "json_detail =
     JObj [(''mapping'', JObj [(''n1'', JObj [(''message'',
       JObj [(''id'', JStr ''m1''), (''create_time'', JNum 1700000000),
             (''author'', JObj [(''role'', JStr ''user'')])])])])]"

definition json_detail_empty_id :: json where
  "json_detail_empty_id =
     JObj [(''mapping'', JObj [(''n1'', JObj [(''message'',
       JObj [(''id'', JStr []), (''create_time'', JNum 1700000000)])])])]"

text \<open>A detail body with a \<open>null\<close> message, a \<open>null\<close> id, a \<open>null\<close> author and the id
  \<open>__proto__\<close> beside an ordinary message, and a list body of the same kind.\<close>

definition json_detail_mixed :: json where
  "json_detail_mixed =
     JObj [(''mapping'', JObj
       [(''n0'', JObj [(''message'', JNull)]),
        (''n1'', JObj [(''message'',
           JObj [(''id'', JStr ''m1''), (''create_time'', JNum 1700000000),
                 (''author'', JObj [(''role'', JStr ''user'')])])]),
        (''n2'', JObj [(''message'', JObj [(''id'', JNull), (''create_time'', JNum 1700000001)])]),
        (''n3'', JObj [(''message'',
           JObj [(''id'', JStr ''__proto__''), (''create_time'', JNum 1700000002),
                 (''author'', JNull)])])])]"

definition json_list_mixed :: json where
  "json_list_mixed =
     JObj [(''items'', JArr
       [JObj [(''id'', JNull), (''create_time'', JStr ''2024-01-01T00:00:00Z'')],
        JObj [(''id'', JStr ''c1''), (''create_time'', JStr ''2024-01-01T00:00:00Z''),
              (''update_time'', JNull)],
        JObj [(''id'', JStr ''__proto__''), (''create_time'', JStr ''2024-01-02T00:00:00Z'')]])]"

definition json_list :: json where
  "json_list =
     JObj [(''items'', JArr [JObj [(''id'', JStr ''c1''),
                                   (''create_time'', JStr ''2024-01-01T00:00:00Z'')]])]"

definition json_list_empty_id :: json where
  "json_list_empty_id =
     JObj [(''items'', JArr [JObj [(''id'', JStr []),
                                   (''create_time'', JStr ''2024-01-01T00:00:00Z'')]])]"

definition json_input_message :: json where
  "json_input_message =
     JObj [(''type'', JStr ''input_message''),
           (''input_message'', JObj [(''id'', JStr ''m2''), (''create_time'', JNum 1700000100)])]"

definition parse_known :: "string \<Rightarrow> json option" where
  "parse_known s =
     (if s = doc_empty_object then Some (JObj [])
      else if s = doc_detail then Some json_detail
      else if s = doc_detail_empty_id then Some json_detail_empty_id
      else if s = doc_list then Some json_list
      else if s = doc_list_empty_id then Some json_list_empty_id
      else if s = doc_input_message then Some json_input_message
      else None)"

definition test_platform :: "unit platform" where
  "test_platform =
     \<lparr>numToString = (\<lambda>n. ''0''), JSON_parse = parse_known, utf8_decode = ascii_decode,
      decoder_new = (), decoder_decode = (\<lambda>d bs. (ascii_decode bs, d))\<rparr>"

definition origin_here :: string where
  "origin_here = ''https://chatgpt.com''"

definition origin_other :: string where
  "origin_other = ''https://example.org''"

text \<open>Responses and states of the instances: a JSON body in one chunk, and an event
  stream whose one event ends across two chunks.\<close>

definition text_response :: "string \<Rightarrow> response" where
  "text_response text =
     \<lparr>status = 200, statusText = ''OK'', content_type = Some ''application/json'',
      body = Some [ascii text]\<rparr>"

definition sse_chunks :: "byte list list" where
  "sse_chunks = [ascii (''data: '' @ doc_input_message @ newline), ascii newline]"

definition sse_response :: response where
  "sse_response =
     \<lparr>status = 200, statusText = ''OK'', content_type = Some ''text/event-stream'',
      body = Some sse_chunks\<rparr>"

definition sample_timestamps :: timestamps where
  "sample_timestamps = [(''m1'', \<lparr>createTime = JNum 1700000000, role = JStr ''user''\<rparr>)]"

definition sample_conversations :: conversations where
  "sample_conversations =
     [(''c1'', \<lparr>conv_createTime = JStr ''2024-01-01T00:00:00Z'', updateTime = JNull,
               title = JNull\<rparr>)]"

definition sample_interceptor :: interceptor where
  "sample_interceptor =
     \<lparr>timestampBuffer = sample_timestamps, conversationBuffer = sample_conversations,
      posted = [TIMEGPT_TIMESTAMPS sample_timestamps]\<rparr>"

definition sample_presenter :: presenter where
  "sample_presenter =
     \<lparr>timestampMap = [], conversationMap = [], showMessages = True, showSidebar = True,
      rendered = []\<rparr>"

text \<open>A run of the interceptor: a list call, then a stream event; and the state it
  leaves.\<close>

definition sample_actions :: "action list" where
  "sample_actions =
     [FetchCall (StringInput ''/backend-api/conversations'') (Inr (text_response doc_list)),
      StreamEvent (''data: '' @ doc_input_message)]"

definition stream_timestamps :: timestamps where
  "stream_timestamps = [(''m2'', \<lparr>createTime = JNum 1700000100, role = JNull\<rparr>)]"

definition sample_after :: interceptor where
  "sample_after =
     \<lparr>timestampBuffer = stream_timestamps, conversationBuffer = sample_conversations,
      posted = [TIMEGPT_CONVERSATIONS sample_conversations, TIMEGPT_TIMESTAMPS stream_timestamps]\<rparr>"

text \<open>Items, a node and a message with an empty string in a field.\<close>

definition item_empty_id :: json where
  "item_empty_id = JObj [(''id'', JStr []), (''create_time'', JStr ''2024-01-01T00:00:00Z'')]"

definition item_empty_title :: json where
  "item_empty_title =
     JObj [(''id'', JStr ''c1''), (''create_time'', JStr ''2024-01-01T00:00:00Z''),
           (''title'', JStr [])]"

definition node_empty_id :: json where
  "node_empty_id =
     JObj [(''message'', JObj [(''id'', JStr []), (''create_time'', JNum 1700000000)])]"

definition message_empty_role :: json where
  "message_empty_role =
     JObj [(''id'', JStr ''m1''), (''create_time'', JNum 1700000000),
           (''author'', JObj [(''role'', JStr [])])]"

section \<open>Keys and merging\<close>

lemma keys_set_key: "fst ` set (set_key k v m) = insert k (fst ` set m)"
  by (induction m) auto

lemma map_of_set_key: "map_of (set_key k v m) = (map_of m)(k \<mapsto> v)"
  by (induction m) auto

lemma set_key_same: "set_key k v (set_key k w m) = set_key k v m"
  by (induction m) auto

lemma set_key_commute:
  "k \<noteq> j \<Longrightarrow> k \<in> fst ` set m \<Longrightarrow> set_key k v (set_key j w m) = set_key j w (set_key k v m)"
  by (induction m) auto

lemma set_key_present: "map_of m k = Some v \<Longrightarrow> set_key k v m = m"
  by (induction m) (auto split: if_splits)

lemma set_all_Nil: "set_all m [] = m"
  by (simp add: set_all_def)

lemma set_all_Cons: "set_all m ((k, v) # es) = set_all (set_key k v m) es"
  by (simp add: set_all_def)

lemma keys_set_all: "fst ` set (set_all m es) = fst ` set m \<union> fst ` set es"
proof (induction es arbitrary: m)
  case Nil
  then show ?case by (simp add: set_all_Nil)
next
  case (Cons e es)
  obtain k v where e: "e = (k, v)" by (cases e)
  have "fst ` set (set_all m (e # es)) = fst ` set (set_key k v m) \<union> fst ` set es"
    using Cons.IH by (simp add: e set_all_Cons)
  also have "\<dots> = insert k (fst ` set m) \<union> fst ` set es"
    by (simp only: keys_set_key)
  finally show ?case by (simp add: e)
qed

lemma map_of_set_all: "map_of (set_all m es) = map_of m ++ map_of (rev es)"
  by (induction es arbitrary: m) (auto simp: set_all_Nil set_all_Cons map_of_set_key)

lemma merge_entries_map: "fst (merge_entries es (m, n)) = set_all m es"
  by (induction es arbitrary: m n) (auto simp: set_all_Nil set_all_Cons)

lemma merge_entries_eq: "merge_entries es (m, n) = (m', n') \<Longrightarrow> m' = set_all m es"
  using merge_entries_map [of es m n] by simp

lemma assign_untouched:
  "k \<notin> fst ` set es \<Longrightarrow> map_of (set_all m es) k = map_of m k"
  by (induction es arbitrary: m) (auto simp: set_all_Nil set_all_Cons map_of_set_key)

lemma assign_overwrites:
  "k \<in> fst ` set es \<Longrightarrow> k \<in> fst ` set m \<Longrightarrow>
   set_all (set_key k v m) es = set_all m es"
proof (induction es arbitrary: m)
  case Nil
  then show ?case by simp
next
  case (Cons e es)
  obtain j w where e: "e = (j, w)" by (cases e)
  show ?case
  proof (cases "j = k")
    case True
    then show ?thesis by (simp add: e set_all_Cons set_key_same)
  next
    case False
    with Cons.prems e have kes: "k \<in> fst ` set es" by auto
    from False have kj: "k \<noteq> j" by simp
    have "set_key j w (set_key k v m) = set_key k v (set_key j w m)"
      using set_key_commute [OF kj Cons.prems(2)] by simp
    moreover have "set_all (set_key k v (set_key j w m)) es = set_all (set_key j w m) es"
      using Cons.IH [OF kes, of "set_key j w m"] Cons.prems(2) by (simp add: keys_set_key)
    ultimately show ?thesis by (simp add: e set_all_Cons)
  qed
qed

lemma set_all_idem: "set_all (set_all m es) es = set_all m es"
proof (induction es arbitrary: m)
  case Nil
  then show ?case by (simp add: set_all_Nil)
next
  case (Cons e es)
  obtain k v where e: "e = (k, v)" by (cases e)
  define z where "z = set_all (set_key k v m) es"
  have kz: "k \<in> fst ` set z" by (simp add: z_def keys_set_all keys_set_key)
  have zz: "set_all z es = z" unfolding z_def by (rule Cons.IH)
  have "set_all (set_key k v z) es = z"
  proof (cases "k \<in> fst ` set es")
    case True
    then have "set_all (set_key k v z) es = set_all z es"
      using kz by (rule assign_overwrites)
    also note zz
    finally show ?thesis .
  next
    case False
    then have "map_of z k = Some v"
      unfolding z_def by (simp add: assign_untouched map_of_set_key)
    then have "set_key k v z = z" by (rule set_key_present)
    with zz show ?thesis by (simp only:)
  qed
  then show ?case unfolding z_def e set_all_Cons .
qed

lemma listener_timestampMap:
  "timestampMap (message_listener here ev st) =
     (if event_origin ev \<noteq> here then timestampMap st
      else (case event_data ev of
              TIMEGPT_TIMESTAMPS ts \<Rightarrow> set_all (timestampMap st) ts
            | _ \<Rightarrow> timestampMap st))"
  by (cases "event_data ev")
     (auto simp: message_listener_def Let_def split: prod.splits dest: merge_entries_eq)

lemma listener_conversationMap:
  "conversationMap (message_listener here ev st) =
     (if event_origin ev \<noteq> here then conversationMap st
      else (case event_data ev of
              TIMEGPT_CONVERSATIONS cs \<Rightarrow> set_all (conversationMap st) cs
            | _ \<Rightarrow> conversationMap st))"
  by (cases "event_data ev")
     (auto simp: message_listener_def Let_def split: prod.splits dest: merge_entries_eq)

lemma distinct_set_key: "distinct (map fst m) \<Longrightarrow> distinct (map fst (set_key k v m))"
  by (induction m) (auto simp: keys_set_key)

lemma distinct_set_all: "distinct (map fst m) \<Longrightarrow> distinct (map fst (set_all m es))"
  by (induction es arbitrary: m) (auto simp: set_all_Nil set_all_Cons distinct_set_key)

lemma set_key_fresh: "k \<notin> fst ` set m \<Longrightarrow> set_key k v m = m @ [(k, v)]"
  by (induction m) auto

lemma map_of_rev_distinct:
  assumes "distinct (map fst b)"
  shows "map_of (rev b) = map_of b"
proof -
  have "distinct (map fst (rev b))" using assms by (simp only: rev_map [symmetric] distinct_rev)
  from map_of_inject_set [OF this assms] show ?thesis by simp
qed

text \<open>Assignment to a plain object, by what it is on a \<open>Map\<close>.\<close>

lemma object_assign_set_all:
  "object_assign m es = set_all m (filter (\<lambda>p. fst p \<noteq> ''__proto__'') es)"
  unfolding object_assign_def set_all_def
  by (induction es arbitrary: m) (auto simp: assign_key_def)

lemma keys_object_assign:
  "fst ` set (object_assign m es) = fst ` set m \<union> (fst ` set es - {''__proto__''})"
  unfolding object_assign_set_all keys_set_all by auto

lemma distinct_object_assign:
  "distinct (map fst m) \<Longrightarrow> distinct (map fst (object_assign m es))"
  unfolding object_assign_set_all by (rule distinct_set_all)

lemma keys_assign_key:
  "fst ` set (assign_key k v m) \<subseteq> insert k (fst ` set m) \<and>
   (''__proto__'' \<notin> fst ` set m \<longrightarrow> ''__proto__'' \<notin> fst ` set (assign_key k v m))"
  by (auto simp: assign_key_def keys_set_key)

section \<open>URL classification\<close>

lemma list_regex_includes: "list_regex url \<Longrightarrow> str_includes url ''/backend-api/conversations''"
  unfolding list_regex_def str_includes_def list_ex_iff by blast

lemma list_stream_query:
  assumes "list_regex url" "stream_regex url"
  shows "CHR ''?'' \<in> set url"
proof -
  from assms(1) obtain t where t: "suffix t url" "prefix ''/backend-api/conversations'' t"
    and r: "(case drop (length ''/backend-api/conversations'') t of [] \<Rightarrow> True | c # cs \<Rightarrow> c = CHR ''?'')"
    unfolding list_regex_def list_ex_iff by (auto simp: in_set_suffixes)
  from t(2) obtain rest where rest: "t = ''/backend-api/conversations'' @ rest"
    by (auto simp: prefix_def)
  show ?thesis
  proof (cases rest)
    case Nil
    with rest t(1) have "suffix ''/backend-api/conversations'' url" by simp
    then have "last url = CHR ''s''" by (auto simp: suffix_def)
    moreover from assms(2) have "last url = CHR ''n''" by (auto simp: stream_regex_def suffix_def)
    ultimately show ?thesis by simp
  next
    case (Cons c cs)
    with r rest have "c = CHR ''?''" by simp
    with Cons rest have "CHR ''?'' \<in> set t" by simp
    with t(1) show ?thesis by (auto simp: suffix_def)
  qed
qed

lemma list_ex_suffixesI: "suffix t url \<Longrightarrow> P t \<Longrightarrow> list_ex P (suffixes url)"
  by (auto simp: list_ex_iff in_set_suffixes)

lemma detail_regexI:
  assumes "url = pre @ ''/backend-api/conversation/'' @ tok @ rest"
    and "20 \<le> length tok" and "list_all hex_or_hyphen tok"
  shows "detail_regex url"
proof -
  let ?t = "''/backend-api/conversation/'' @ tok @ rest"
  have suf: "suffix ?t url" using assms(1) by (rule suffixI)
  have pre: "prefix ''/backend-api/conversation/'' ?t" by (rule prefixI [OF refl])
  have "takeWhile hex_or_hyphen (tok @ rest) = tok @ takeWhile hex_or_hyphen rest"
    using assms(3) by (simp add: list_all_iff)
  then have "20 \<le> length (takeWhile hex_or_hyphen (drop (length ''/backend-api/conversation/'') ?t))"
    using assms(2) by simp
  with pre have "prefix ''/backend-api/conversation/'' ?t \<and>
      20 \<le> length (takeWhile hex_or_hyphen (drop (length ''/backend-api/conversation/'') ?t))"
    by (rule conjI)
  then show ?thesis
    unfolding detail_regex_def by (rule list_ex_suffixesI [OF suf])
qed

lemma list_regexI:
  assumes "url = pre @ ''/backend-api/conversations'' @ rest"
    and "rest = [] \<or> hd rest = CHR ''?''"
  shows "list_regex url"
proof -
  let ?t = "''/backend-api/conversations'' @ rest"
  have suf: "suffix ?t url" using assms(1) by (rule suffixI)
  have pre: "prefix ''/backend-api/conversations'' ?t" by (rule prefixI [OF refl])
  have "(case drop (length ''/backend-api/conversations'') ?t of [] \<Rightarrow> True | c # cs \<Rightarrow> c = CHR ''?'')"
    using assms(2) by (cases rest) auto
  with pre have "prefix ''/backend-api/conversations'' ?t \<and>
     (case drop (length ''/backend-api/conversations'') ?t of [] \<Rightarrow> True | c # cs \<Rightarrow> c = CHR ''?'')"
    by (rule conjI)
  then show ?thesis
    unfolding list_regex_def by (rule list_ex_suffixesI [OF suf])
qed

lemma stream_regexI: "url = pre @ ''/backend-api/f/conversation'' \<Longrightarrow> stream_regex url"
  unfolding stream_regex_def by (rule suffixI)

text \<open>
  Claim C7, as stated: for every URL at most one of the three classifications holds.
  It fails: the pattern of the streaming endpoint is anchored at the end of the URL
  only, and the other two patterns are not anchored at all, so a URL whose query
  string ends with the streaming path satisfies the list condition and the live-stream
  URL condition together, and another one the detail condition and the live-stream
  URL condition.
\<close>

theorem C7_stream_overlap:
  "is_list ''/backend-api/conversations?next=/backend-api/f/conversation'' \<and>
   stream_regex ''/backend-api/conversations?next=/backend-api/f/conversation'' \<and>
   is_detail ''/backend-api/conversation/0123abcd-0123-4abc-8def-0123456789ab?x=/backend-api/f/conversation'' \<and>
   stream_regex ''/backend-api/conversation/0123abcd-0123-4abc-8def-0123456789ab?x=/backend-api/f/conversation''"
proof -
  have "list_regex ''/backend-api/conversations?next=/backend-api/f/conversation''"
    by (rule list_regexI [of _ "[]" "''?next=/backend-api/f/conversation''"]) simp_all
  moreover have "stream_regex ''/backend-api/conversations?next=/backend-api/f/conversation''"
    by (rule stream_regexI [of _ "''/backend-api/conversations?next=''"]) simp
  moreover have "detail_regex ''/backend-api/conversation/0123abcd-0123-4abc-8def-0123456789ab?x=/backend-api/f/conversation''"
    by (rule detail_regexI [of _ "[]" "''0123abcd-0123-4abc-8def-0123456789ab''"
          "''?x=/backend-api/f/conversation''"])
       (simp_all add: hex_or_hyphen_def)
  moreover have "\<not> str_includes ''/backend-api/conversation/0123abcd-0123-4abc-8def-0123456789ab?x=/backend-api/f/conversation''
                     ''/backend-api/conversation/limit''"
    by (simp add: str_includes_def)
  moreover have "\<not> str_includes ''/backend-api/conversation/0123abcd-0123-4abc-8def-0123456789ab?x=/backend-api/f/conversation''
                     ''/backend-api/conversations''"
    by (simp add: str_includes_def)
  moreover have "stream_regex ''/backend-api/conversation/0123abcd-0123-4abc-8def-0123456789ab?x=/backend-api/f/conversation''"
    by (rule stream_regexI [of _ "''/backend-api/conversation/0123abcd-0123-4abc-8def-0123456789ab?x=''"]) simp
  ultimately show ?thesis
    unfolding is_list_def is_detail_def by (intro conjI)
qed

text \<open>
  Claim C7, amended: for every URL the detail condition and the list condition never
  hold together (the detail condition refuses a URL that contains the list path), and
  the list condition holds together with the live-stream URL condition only for a URL
  that contains a question mark.
\<close>

theorem C7_detail_list_exclusive:
  "\<not> (is_detail url \<and> is_list url) \<and>
   (is_list url \<and> stream_regex url \<longrightarrow> CHR ''?'' \<in> set url)"
  unfolding is_detail_def is_list_def
  using list_regex_includes list_stream_query by blast

theorem C7_detail_list_exclusive_witness:
  "is_list ''/backend-api/conversations?a=/backend-api/f/conversation'' \<and>
   stream_regex ''/backend-api/conversations?a=/backend-api/f/conversation'' \<and>
   \<not> is_detail ''/backend-api/conversations?a=/backend-api/f/conversation'' \<and>
   CHR ''?'' \<in> set ''/backend-api/conversations?a=/backend-api/f/conversation''"
proof -
  have l: "is_list ''/backend-api/conversations?a=/backend-api/f/conversation''"
    unfolding is_list_def
    by (rule list_regexI [of _ "[]" "''?a=/backend-api/f/conversation''"]) simp_all
  have s: "stream_regex ''/backend-api/conversations?a=/backend-api/f/conversation''"
    by (rule stream_regexI [of _ "''/backend-api/conversations?a=''"]) simp
  from C7_detail_list_exclusive [of "''/backend-api/conversations?a=/backend-api/f/conversation''"] l s
  show ?thesis by (intro conjI) (simp_all only: simp_thms)
qed

section \<open>The presenter's merge\<close>

text \<open>
  Claim C6: the presenter's merge of a batch is idempotent. For every state of the
  presenter and every message event, handling the same event a second time leaves both
  record maps exactly as the first handling left them (the same entries in the same
  order); and the loop over a batch, run twice, gives the map it gives when run once.
\<close>

theorem C6_merge_idempotent:
  "timestampMap (message_listener here ev (message_listener here ev st)) =
     timestampMap (message_listener here ev st) \<and>
   conversationMap (message_listener here ev (message_listener here ev st)) =
     conversationMap (message_listener here ev st) \<and>
   fst (merge_entries b (fst (merge_entries b (m, 0)), 0)) = fst (merge_entries b (m, 0))"
  by (cases "event_data ev")
     (simp_all add: listener_timestampMap listener_conversationMap merge_entries_map
        set_all_idem)

section \<open>Growth of the interceptor's state\<close>

lemma keeps_keys_refl: "keeps_keys st st"
  by (simp add: keeps_keys_def)

lemma keeps_keys_trans:
  assumes "keeps_keys a b" "keeps_keys b c"
  shows "keeps_keys a c"
proof -
  have "fst ` set (timestampBuffer a) \<subseteq> fst ` set (timestampBuffer c)"
    using assms unfolding keeps_keys_def by (meson subset_trans)
  moreover have "fst ` set (conversationBuffer a) \<subseteq> fst ` set (conversationBuffer c)"
    using assms unfolding keeps_keys_def by (meson subset_trans)
  ultimately show ?thesis unfolding keeps_keys_def by (rule conjI)
qed

lemma covered_mono: "keeps_keys st st' \<Longrightarrow> covered st m \<Longrightarrow> covered st' m"
  unfolding keeps_keys_def by (cases m) (simp_all, (meson subset_trans)+)

lemma extends_refl: "extends st st"
  by (simp add: extends_def keeps_keys_refl)

lemma extends_trans:
  assumes "extends a b" "extends b c"
  shows "extends a c"
proof -
  from assms(1) obtain n1 where ab: "keeps_keys a b" "posted b = posted a @ n1" "list_all (covered b) n1"
    and tab: "tidy a \<longrightarrow> tidy b"
    unfolding extends_def by blast
  from assms(2) obtain n2 where bc: "keeps_keys b c" "posted c = posted b @ n2" "list_all (covered c) n2"
    and tbc: "tidy b \<longrightarrow> tidy c"
    unfolding extends_def by blast
  have "list_all (covered c) n1"
    using ab(3) covered_mono [OF bc(1)] by (auto simp: list_all_iff)
  with bc(3) have "list_all (covered c) (n1 @ n2)" by simp
  moreover have "posted c = posted a @ (n1 @ n2)" using ab(2) bc(2) by simp
  moreover have "keeps_keys a c" using ab(1) bc(1) by (rule keeps_keys_trans)
  moreover have "tidy a \<longrightarrow> tidy c" using tab tbc by simp
  ultimately show ?thesis unfolding extends_def by blast
qed

lemma proto_free_Nil: "proto_free []"
  by (simp add: proto_free_def)

lemma proto_free_assign_key: "proto_free obj \<Longrightarrow> proto_free (assign_key k v obj)"
  using keys_assign_key [of k v obj] by (simp add: proto_free_def)

lemma extends_broadcast_timestamps:
  assumes "proto_free ts"
  shows "extends st (broadcast_timestamps ts st)"
proof -
  have k: "fst ` set (object_assign (timestampBuffer st) ts) =
           fst ` set (timestampBuffer st) \<union> fst ` set ts"
    using assms by (simp add: keys_object_assign proto_free_def)
  have "keeps_keys st (broadcast_timestamps ts st)"
    by (simp add: keeps_keys_def broadcast_timestamps_def k)
  moreover have "posted (broadcast_timestamps ts st) = posted st @ [TIMEGPT_TIMESTAMPS ts] \<and>
      list_all (covered (broadcast_timestamps ts st)) [TIMEGPT_TIMESTAMPS ts]"
    by (simp add: broadcast_timestamps_def k)
  moreover have "tidy st \<longrightarrow> tidy (broadcast_timestamps ts st)"
    by (simp add: tidy_def broadcast_timestamps_def distinct_object_assign)
  ultimately show ?thesis unfolding extends_def by blast
qed

lemma extends_broadcast_conversations:
  assumes "proto_free cs"
  shows "extends st (broadcast_conversations cs st)"
proof -
  have k: "fst ` set (object_assign (conversationBuffer st) cs) =
           fst ` set (conversationBuffer st) \<union> fst ` set cs"
    using assms by (simp add: keys_object_assign proto_free_def)
  have "keeps_keys st (broadcast_conversations cs st)"
    by (simp add: keeps_keys_def broadcast_conversations_def k)
  moreover have "posted (broadcast_conversations cs st) = posted st @ [TIMEGPT_CONVERSATIONS cs] \<and>
      list_all (covered (broadcast_conversations cs st)) [TIMEGPT_CONVERSATIONS cs]"
    by (simp add: broadcast_conversations_def k)
  moreover have "tidy st \<longrightarrow> tidy (broadcast_conversations cs st)"
    by (simp add: tidy_def broadcast_conversations_def distinct_object_assign)
  ultimately show ?thesis unfolding extends_def by blast
qed

lemma detail_loop_proto_free:
  "detail_loop ns nodes (ts, c) = Inr (ts', c') \<Longrightarrow> proto_free ts \<Longrightarrow> proto_free ts'"
proof (induction nodes arbitrary: ts c)
  case Nil
  then show ?case by simp
next
  case (Cons node nodes)
  show ?case
  proof (cases "member node ''message''")
    case (Inl e)
    with Cons.prems show ?thesis by simp
  next
    case (Inr msg)
    show ?thesis
    proof (cases "message_entry ns msg")
      case (Inl e)
      with Inr Cons.prems show ?thesis by simp
    next
      case r: (Inr res)
      show ?thesis
      proof (cases res)
        case None
        with Inr r Cons.prems Cons.IH show ?thesis by simp
      next
        case (Some ke)
        obtain k e where "ke = (k, e)" by (cases ke)
        with Some Inr r Cons.prems
        have "detail_loop ns nodes (assign_key k e ts, c + 1) = Inr (ts', c')" by simp
        then show ?thesis
          using proto_free_assign_key [OF Cons.prems(2)] by (rule Cons.IH)
      qed
    qed
  qed
qed

lemma list_loop_proto_free:
  "list_loop ns items (cs, c) = Inr (cs', c') \<Longrightarrow> proto_free cs \<Longrightarrow> proto_free cs'"
proof (induction items arbitrary: cs c)
  case Nil
  then show ?case by simp
next
  case (Cons item items)
  from Cons.prems(1) have nn: "item \<noteq> JNull" by (auto split: if_splits)
  show ?case
  proof (cases "conversation_entry ns item")
    case (Inl e)
    with nn Cons.prems show ?thesis by simp
  next
    case r: (Inr res)
    show ?thesis
    proof (cases res)
      case None
      with nn r Cons.prems Cons.IH show ?thesis by simp
    next
      case (Some ke)
      obtain k e where "ke = (k, e)" by (cases ke)
      with Some nn r Cons.prems
      have "list_loop ns items (assign_key k e cs, c + 1) = Inr (cs', c')" by simp
      then show ?thesis
        using proto_free_assign_key [OF Cons.prems(2)] by (rule Cons.IH)
    qed
  qed
qed

lemma extends_detail_batch:
  "detail_loop ns nodes ([], 0) = Inr (ts, count) \<Longrightarrow> extends st (broadcast_timestamps ts st)"
  using detail_loop_proto_free [OF _ proto_free_Nil] by (rule extends_broadcast_timestamps)

lemma extends_list_batch:
  "list_loop ns items ([], 0) = Inr (cs, count) \<Longrightarrow> extends st (broadcast_conversations cs st)"
  using list_loop_proto_free [OF _ proto_free_Nil] by (rule extends_broadcast_conversations)

lemma extends_extractMessageTimestamps:
  "extends st (case extractMessageTimestamps ns d st of Inl e \<Rightarrow> st | Inr st' \<Rightarrow> st')"
  unfolding extractMessageTimestamps_def
  by (auto simp: extends_refl split: option.split sum.split prod.split
      intro: extends_detail_batch)

lemma extends_extractConversationTimestamps:
  "extends st (case extractConversationTimestamps ns d st of Inl e \<Rightarrow> st | Inr st' \<Rightarrow> st')"
  unfolding extractConversationTimestamps_def
  by (auto simp: extends_refl split: option.split sum.split prod.split json.split
      intro: extends_list_batch)

lemma stream_message_proto_free:
  "stream_message ns msg ts = Inr ts' \<Longrightarrow> proto_free ts \<Longrightarrow> proto_free ts'"
  by (auto simp: stream_message_def proto_free_assign_key split: sum.splits option.splits)

lemma extractStreamTimestamp_cases:
  "extractStreamTimestamp ns d st = Inr st' \<Longrightarrow>
   st' = st \<or> (\<exists>ts. proto_free ts \<and> st' = broadcast_timestamps ts st)"
proof -
  assume a: "extractStreamTimestamp ns d st = Inr st'"
  define r1 where "r1 = (if get_prop d ''type'' = Some (JStr ''input_message'') \<and>
               truthy_opt (get_prop d ''input_message'')
            then stream_message ns (get_prop d ''input_message'') []
            else Inr [])"
  from a obtain ts1 where 1: "r1 = Inr ts1"
    unfolding extractStreamTimestamp_def r1_def [symmetric] by (cases r1) simp_all
  have p1: "proto_free ts1"
    using 1 stream_message_proto_free [OF _ proto_free_Nil] proto_free_Nil
    unfolding r1_def by (auto split: if_splits)
  define r2 where "r2 = (if truthy_opt (opt_member (get_prop d ''v'') ''message'')
                 then stream_message ns (opt_member (get_prop d ''v'') ''message'') ts1
                 else Inr ts1)"
  from a 1 have a2: "(case r2 of Inl e \<Rightarrow> Inl e
      | Inr ts2 \<Rightarrow> Inr (if ts2 = [] then st else broadcast_timestamps ts2 st)) = Inr st'"
    unfolding extractStreamTimestamp_def r1_def [symmetric] r2_def by simp
  then obtain ts2 where 2: "r2 = Inr ts2"
    and s: "st' = (if ts2 = [] then st else broadcast_timestamps ts2 st)"
    by (cases r2) auto
  have p2: "proto_free ts2"
    using 2 stream_message_proto_free [OF _ p1] p1
    unfolding r2_def by (auto split: if_splits)
  with s show ?thesis by auto
qed

lemma extends_extractStreamTimestamp:
  "extends st (case extractStreamTimestamp ns d st of Inl e \<Rightarrow> st | Inr st' \<Rightarrow> st')"
proof (cases "extractStreamTimestamp ns d st")
  case (Inl e)
  then show ?thesis by (simp add: extends_refl)
next
  case (Inr st')
  from extractStreamTimestamp_cases [OF this] Inr show ?thesis
    by (auto simp: extends_refl extends_broadcast_timestamps)
qed

lemma extends_processSSEEvent: "extends st (processSSEEvent P raw st)"
  unfolding processSSEEvent_def Let_def
  by (simp add: extends_refl extends_extractStreamTimestamp split: option.split)

lemma extends_fold:
  assumes "\<And>x s. extends s (f x s)"
  shows "extends st (fold f xs st)"
proof (induction xs arbitrary: st)
  case Nil
  show ?case by (simp add: extends_refl)
next
  case (Cons x xs)
  have "extends st (f x st)" by (rule assms)
  moreover have "extends (f x st) (fold f xs (f x st))" by (rule Cons.IH)
  ultimately have "extends st (fold f xs (f x st))" by (rule extends_trans)
  then show ?case by simp
qed

lemma extends_processSSEBuffer: "extends st (processSSEBuffer P buf st)"
  unfolding processSSEBuffer_def by (rule extends_fold) (rule extends_processSSEEvent)

lemma extends_pull: "extends st (snd (pull P (t, st)))"
proof (cases "reader t")
  case Nil
  then show ?thesis
    by (simp add: pull_def extends_refl extends_processSSEBuffer)
next
  case (Cons v rest)
  have "extends st (fold (processSSEEvent P) xs st)" for xs
    by (rule extends_fold) (rule extends_processSSEEvent)
  with Cons show ?thesis
    by (simp add: pull_def Let_def split: prod.split)
qed

lemma extends_fetch_wrapper: "extends st (snd (fetch_wrapper P input outcome st))"
proof (cases outcome)
  case (Inl e)
  then show ?thesis by (simp add: fetch_wrapper_def extends_refl)
next
  case (Inr r)
  define st1 where "st1 = (if is_detail (resolve_url input)
                      then (case response_json P r of
                              None \<Rightarrow> st
                            | Some json \<Rightarrow>
                                (case extractMessageTimestamps (numToString P) json st of
                                   Inl e \<Rightarrow> st | Inr st' \<Rightarrow> st'))
                      else st)"
  define st2 where "st2 = (if is_list (resolve_url input)
                      then (case response_json P r of
                              None \<Rightarrow> st1
                            | Some json \<Rightarrow>
                                (case extractConversationTimestamps (numToString P) json st1 of
                                   Inl e \<Rightarrow> st1 | Inr st' \<Rightarrow> st'))
                      else st1)"
  have 1: "extends st st1"
    unfolding st1_def by (simp add: extends_refl extends_extractMessageTimestamps split: option.split)
  have 2: "extends st1 st2"
    unfolding st2_def by (simp add: extends_refl extends_extractConversationTimestamps split: option.split)
  have "snd (fetch_wrapper P input outcome st) = st2"
    unfolding fetch_wrapper_def Inr st2_def st1_def
    by (simp add: Let_def split: sum.split)
  with extends_trans [OF 1 2] show ?thesis by simp
qed

lemma extends_post: "covered st m \<Longrightarrow> extends st (post m st)"
  unfolding extends_def keeps_keys_def post_def tidy_def by (cases m) simp_all

lemma extends_drain_listener: "extends st (drain_listener here ev st)"
proof -
  have a: "extends st (post (TIMEGPT_TIMESTAMPS (timestampBuffer st)) st)"
    by (rule extends_post) simp
  have b: "extends s (post (TIMEGPT_CONVERSATIONS (conversationBuffer s)) s)" for s
    by (rule extends_post) simp
  show ?thesis
    unfolding drain_listener_def Let_def
    using a b extends_trans [OF a b] by (simp add: extends_refl)
qed

lemma presenter_keeps: "presenter_keeps_keys p (message_listener here ev p)"
  unfolding presenter_keeps_keys_def
  by (cases "event_data ev")
     (simp_all add: listener_timestampMap listener_conversationMap keys_set_all)

section \<open>The tap forwards the body\<close>

lemma read_all_enqueued:
  "enqueued (fst (read_all P ts)) =
     (if closed (fst ts) then enqueued (fst ts) else enqueued (fst ts) @ reader (fst ts)) \<and>
   closed (fst (read_all P ts)) \<and> extends (snd ts) (snd (read_all P ts))"
proof (induction P ts rule: read_all.induct)
  case (1 P t st)
  show ?case
  proof (cases "closed t")
    case True
    then show ?thesis by (simp add: extends_refl)
  next
    case False
    obtain t' st' where p: "pull P (t, st) = (t', st')" by (cases "pull P (t, st)")
    have ex: "extends st st'" using extends_pull [of st P t] p by simp
    have ih: "enqueued (fst (read_all P (t', st'))) =
        (if closed t' then enqueued t' else enqueued t' @ reader t') \<and>
        closed (fst (read_all P (t', st'))) \<and> extends st' (snd (read_all P (t', st')))"
      using "1.IH" [OF False] p by simp
    have r: "read_all P (t, st) = read_all P (t', st')"
      using False p by simp
    have shape: "(if closed t' then enqueued t' else enqueued t' @ reader t') = enqueued t @ reader t"
    proof (cases "reader t")
      case Nil
      with p have "t' = t\<lparr>closed := True\<rparr>" by (simp add: pull_def)
      with Nil show ?thesis by simp
    next
      case (Cons v rest)
      with p have "enqueued t' = enqueued t @ [v] \<and> reader t' = rest \<and> closed t' = closed t"
        by (auto simp: pull_def Let_def split: prod.splits)
      with Cons False show ?thesis by simp
    qed
    from ih ex have "extends st (snd (read_all P (t', st')))" by (meson extends_trans)
    with ih shape r False show ?thesis by simp
  qed
qed

lemma pulls_prefix:
  "\<not> closed t \<Longrightarrow> enqueued t @ reader t = chunks \<Longrightarrow>
   enqueued (fst ((pull P ^^ n) (t, st))) @ reader (fst ((pull P ^^ n) (t, st))) = chunks"
proof (induction n)
  case 0
  then show ?case by simp
next
  case (Suc n)
  obtain t' st' where p: "(pull P ^^ n) (t, st) = (t', st')" by (cases "(pull P ^^ n) (t, st)")
  with Suc have inv: "enqueued t' @ reader t' = chunks" by simp
  have "enqueued (fst (pull P (t', st'))) @ reader (fst (pull P (t', st'))) = enqueued t' @ reader t'"
    by (cases "reader t'") (auto simp: pull_def Let_def split: prod.splits)
  with inv p show ?case by simp
qed

lemma tap_start:
  "tapSSEStream P r = Inr t \<Longrightarrow> body r = Some (reader t) \<and> enqueued t = [] \<and> \<not> closed t"
  by (auto simp: tapSSEStream_def split: option.splits if_splits)

lemma ascii_roundtrip: "ascii_decode (ascii s) = s"
proof -
  have "char_of (unat (of_nat (of_char c) :: byte)) = c" for c :: char
  proof -
    have "(of_char c :: nat) < 256" by (rule nat_of_char_less_256)
    then have "unat (of_nat (of_char c) :: byte) = of_char c"
      by (simp add: unat_of_nat)
    then show ?thesis by simp
  qed
  then show ?thesis by (simp add: ascii_def ascii_decode_def map_idI)
qed

text \<open>
  Claim C2: for every response the tap is built on, whatever the platform's decoder
  and \<open>JSON.parse\<close> make of its bytes, the chunks the tap has enqueued when the host
  has read the tapped body to its end are the chunks of the original body, one for
  one (so their concatenation is the original byte sequence), the stream is then
  closed, and after any number of pulls the chunks enqueued so far are the first
  chunks of the original body.
\<close>

theorem C2_tap_forwards_body:
  assumes "tapSSEStream P r = Inr t" and "body r = Some chunks"
  shows "enqueued (fst (read_all P (t, st))) = chunks \<and>
         concat (enqueued (fst (read_all P (t, st)))) = concat chunks \<and>
         closed (fst (read_all P (t, st))) \<and>
         prefix (enqueued (fst ((pull P ^^ n) (t, st)))) chunks"
proof -
  from tap_start [OF assms(1)] assms(2)
  have b: "reader t = chunks" and e: "enqueued t = []" and c: "\<not> closed t"
    by simp_all
  have "enqueued (fst (read_all P (t, st))) = chunks \<and> closed (fst (read_all P (t, st)))"
    using read_all_enqueued [of P "(t, st)"] b e c by simp
  moreover have "prefix (enqueued (fst ((pull P ^^ n) (t, st)))) chunks"
    using pulls_prefix [OF c, where chunks = chunks and P = P and n = n and st = st] b e
    by (metis prefixI self_append_conv2)
  ultimately show ?thesis by simp
qed

theorem C2_tap_forwards_body_witness:
  "tapSSEStream test_platform sse_response =
     Inr \<lparr>reader = sse_chunks, decoder = (), buffer = [], enqueued = [], closed = False\<rparr> \<and>
   body sse_response = Some sse_chunks \<and>
   enqueued (fst (read_all test_platform
     (\<lparr>reader = sse_chunks, decoder = (), buffer = [], enqueued = [], closed = False\<rparr>,
      interceptor_init))) = sse_chunks"
proof -
  have h1: "tapSSEStream test_platform sse_response =
     Inr \<lparr>reader = sse_chunks, decoder = (), buffer = [], enqueued = [], closed = False\<rparr>"
    by (simp add: tapSSEStream_def sse_response_def test_platform_def)
  have h2: "body sse_response = Some sse_chunks"
    by (simp add: sse_response_def)
  from C2_tap_forwards_body [OF h1 h2, of interceptor_init 0] h1 h2
  show ?thesis by simp
qed

section \<open>Keys are never removed\<close>

text \<open>
  Claim C8: no operation removes a key. A call of the wrapped fetch (with the detail
  and the list extraction in it), each extraction on its own when it returns (the
  state is untouched when it throws), the handling of a stream event, a pull of the
  tap, and the drain listener leave every key of both buffers in place; the
  presenter's listener leaves every key of both record maps in place.
\<close>

theorem C8_keys_never_removed:
  "keeps_keys st (snd (fetch_wrapper P input outcome st)) \<and>
   keeps_keys st (case extractMessageTimestamps ns d st of Inl e \<Rightarrow> st | Inr st' \<Rightarrow> st') \<and>
   keeps_keys st (case extractConversationTimestamps ns d st of Inl e \<Rightarrow> st | Inr st' \<Rightarrow> st') \<and>
   keeps_keys st (case extractStreamTimestamp ns d st of Inl e \<Rightarrow> st | Inr st' \<Rightarrow> st') \<and>
   keeps_keys st (processSSEEvent P raw st) \<and>
   keeps_keys st (snd (pull P (t, st))) \<and>
   keeps_keys st (drain_listener here ev st) \<and>
   presenter_keeps_keys p (message_listener here ev p)"
  using extends_fetch_wrapper [of st P input outcome]
    extends_extractMessageTimestamps [of st ns d]
    extends_extractConversationTimestamps [of st ns d]
    extends_extractStreamTimestamp [of st ns d]
    extends_processSSEEvent [of st P raw]
    extends_pull [of st P t]
    extends_drain_listener [of st here ev]
    presenter_keeps [of p here ev]
  unfolding extends_def by (intro conjI) (erule conjE, assumption)+

section \<open>Messages of another origin\<close>

text \<open>
  Claim C9: a message event whose origin is not the page's origin changes nothing:
  the drain listener returns the interceptor's state as it was (buffers and posted
  messages), and the presenter's listener returns the presenter's state as it was
  (record maps and render calls).
\<close>

theorem C9_foreign_origin_ignored:
  "event_origin ev \<noteq> here \<Longrightarrow>
   drain_listener here ev st = st \<and> message_listener here ev p = p"
  by (simp add: drain_listener_def message_listener_def)

theorem C9_foreign_origin_ignored_witness:
  "event_origin \<lparr>event_origin = origin_other, event_data = TIMEGPT_DRAIN_REQUEST\<rparr> \<noteq> origin_here \<and>
   drain_listener origin_here \<lparr>event_origin = origin_other, event_data = TIMEGPT_DRAIN_REQUEST\<rparr>
     sample_interceptor = sample_interceptor \<and>
   event_origin \<lparr>event_origin = origin_other, event_data = TIMEGPT_TIMESTAMPS sample_timestamps\<rparr> \<noteq> origin_here \<and>
   message_listener origin_here
     \<lparr>event_origin = origin_other, event_data = TIMEGPT_TIMESTAMPS sample_timestamps\<rparr>
     sample_presenter = sample_presenter"
proof -
  have h: "origin_other \<noteq> origin_here" by (simp add: origin_other_def origin_here_def)
  from h C9_foreign_origin_ignored
         [of "\<lparr>event_origin = origin_other, event_data = TIMEGPT_DRAIN_REQUEST\<rparr>" origin_here
             sample_interceptor sample_presenter]
       C9_foreign_origin_ignored
         [of "\<lparr>event_origin = origin_other, event_data = TIMEGPT_TIMESTAMPS sample_timestamps\<rparr>"
             origin_here sample_interceptor sample_presenter]
  show ?thesis by simp
qed

section \<open>Failing open\<close>

lemma detail_not_list: "is_detail url \<Longrightarrow> \<not> is_list url"
  unfolding is_detail_def is_list_def using list_regex_includes by blast

lemma extract_messages_no_mapping:
  "get_prop d ''mapping'' = None \<Longrightarrow> extractMessageTimestamps ns d st = Inr st"
  by (simp add: extractMessageTimestamps_def)

lemma extract_conversations_no_items:
  "get_prop d ''items'' = None \<Longrightarrow> extractConversationTimestamps ns d st = Inr st"
  by (simp add: extractConversationTimestamps_def)

lemma ascii_decode_append: "ascii_decode (a @ b) = ascii_decode a @ ascii_decode b"
  by (simp add: ascii_decode_def)

lemma response_json_text: "response_json test_platform (text_response s) = parse_known s"
  by (simp add: response_json_def test_platform_def text_response_def ascii_roundtrip)

lemma parse_known_other: "c \<noteq> CHR ''{'' \<Longrightarrow> parse_known (c # s) = None"
  by (simp add: parse_known_def doc_empty_object_def doc_detail_def doc_detail_empty_id_def
      doc_list_def doc_list_empty_id_def doc_input_message_def)

lemma response_json_sse: "response_json test_platform sse_response = None"
proof -
  have "response_json test_platform sse_response =
        parse_known (''data: '' @ doc_input_message @ newline @ newline)"
    by (simp add: response_json_def test_platform_def sse_response_def sse_chunks_def
        ascii_decode_append ascii_roundtrip)
  also have "\<dots> = None"
    using parse_known_other [of "CHR ''d''"] by simp
  finally show ?thesis .
qed

lemma is_live_stream_sse:
  "is_live_stream ''/backend-api/conversations?a=/backend-api/f/conversation'' sse_response"
proof -
  have "stream_regex ''/backend-api/conversations?a=/backend-api/f/conversation''"
    by (rule stream_regexI [of _ "''/backend-api/conversations?a=''"]) simp
  moreover have "str_includes ''text/event-stream'' ''text/event-stream''"
    by (simp add: str_includes_def)
  ultimately show ?thesis
    by (simp add: is_live_stream_def sse_response_def)
qed

text \<open>
  Claim C1, as stated: a call classified as conversation-detail or conversation-list
  whose body is not JSON gets the original response back and changes nothing. The last
  part, that the wrapper returns the original response, fails for a call that is
  classified live-stream as well: the URL below satisfies the list condition and ends
  with the streaming path, the body is an event stream (not JSON), and the wrapper
  returns a new response around the tap instead of the original one.
\<close>

theorem C1_list_call_gets_tap:
  "is_list (resolve_url (StringInput ''/backend-api/conversations?a=/backend-api/f/conversation'')) \<and>
   lacks_key test_platform sse_response ''items'' \<and>
   fst (fetch_wrapper test_platform
          (StringInput ''/backend-api/conversations?a=/backend-api/f/conversation'')
          (Inr sse_response) interceptor_init) =
     Inr (Tapped sse_response
            \<lparr>reader = sse_chunks, decoder = (), buffer = [], enqueued = [], closed = False\<rparr>) \<and>
   fst (fetch_wrapper test_platform
          (StringInput ''/backend-api/conversations?a=/backend-api/f/conversation'')
          (Inr sse_response) interceptor_init) \<noteq> Inr (Original sse_response)"
proof -
  have l: "is_list ''/backend-api/conversations?a=/backend-api/f/conversation''"
    unfolding is_list_def
    by (rule list_regexI [of _ "[]" "''?a=/backend-api/f/conversation''"]) simp_all
  have k: "lacks_key test_platform sse_response ''items''"
    by (simp add: lacks_key_def response_json_sse)
  have t: "tapSSEStream test_platform sse_response =
     Inr \<lparr>reader = sse_chunks, decoder = (), buffer = [], enqueued = [], closed = False\<rparr>"
    by (simp add: tapSSEStream_def sse_response_def test_platform_def)
  have "fst (fetch_wrapper test_platform
          (StringInput ''/backend-api/conversations?a=/backend-api/f/conversation'')
          (Inr sse_response) interceptor_init) =
     Inr (Tapped sse_response
            \<lparr>reader = sse_chunks, decoder = (), buffer = [], enqueued = [], closed = False\<rparr>)"
    using is_live_stream_sse t
    by (simp add: fetch_wrapper_def Let_def response_json_sse split: sum.split)
  with l k show ?thesis by simp
qed

text \<open>
  Claim C1, amended: for every call classified as conversation-detail or
  conversation-list whose body is not JSON, or is JSON without the expected top-level
  key (\<open>mapping\<close> for a detail call, \<open>items\<close> for a list call), the interceptor's state
  after the call is what it was before (no record is produced, no buffer is updated
  and nothing is posted), and the wrapper returns the original response, unless the
  call is classified live-stream as well and the tap can be built on the response: it
  then returns the new response around the tap.
\<close>

theorem C1_fail_open:
  assumes "is_detail (resolve_url input) \<and> lacks_key P r ''mapping'' \<or>
           is_list (resolve_url input) \<and> lacks_key P r ''items''"
  shows "snd (fetch_wrapper P input (Inr r) st) = st \<and>
         fst (fetch_wrapper P input (Inr r) st) =
           (if is_live_stream (resolve_url input) r
            then (case tapSSEStream P r of
                    Inl e \<Rightarrow> Inr (Original r)
                  | Inr t \<Rightarrow> Inr (Tapped r t))
            else Inr (Original r))"
  using assms
proof (elim disjE conjE)
  assume d: "is_detail (resolve_url input)" and k: "lacks_key P r ''mapping''"
  from d have nl: "\<not> is_list (resolve_url input)" by (rule detail_not_list)
  from k have "(case response_json P r of None \<Rightarrow> st
      | Some json \<Rightarrow> (case extractMessageTimestamps (numToString P) json st of
                         Inl e \<Rightarrow> st | Inr st' \<Rightarrow> st')) = st"
    by (simp add: lacks_key_def extract_messages_no_mapping split: option.splits)
  with d nl show ?thesis
    by (simp add: fetch_wrapper_def Let_def split: sum.split)
next
  assume l: "is_list (resolve_url input)" and k: "lacks_key P r ''items''"
  from l have nd: "\<not> is_detail (resolve_url input)" using detail_not_list by blast
  from k have "(case response_json P r of None \<Rightarrow> st
      | Some json \<Rightarrow> (case extractConversationTimestamps (numToString P) json st of
                         Inl e \<Rightarrow> st | Inr st' \<Rightarrow> st')) = st"
    by (simp add: lacks_key_def extract_conversations_no_items split: option.splits)
  with l nd show ?thesis
    by (simp add: fetch_wrapper_def Let_def split: sum.split)
qed

theorem C1_fail_open_witness:
  "is_list (resolve_url (StringInput ''/backend-api/conversations'')) \<and>
   lacks_key test_platform (text_response ''<html>'') ''items'' \<and>
   fetch_wrapper test_platform (StringInput ''/backend-api/conversations'')
     (Inr (text_response ''<html>'')) sample_interceptor =
     (Inr (Original (text_response ''<html>'')), sample_interceptor) \<and>
   lacks_key test_platform (text_response doc_empty_object) ''items'' \<and>
   fetch_wrapper test_platform (StringInput ''/backend-api/conversations'')
     (Inr (text_response doc_empty_object)) sample_interceptor =
     (Inr (Original (text_response doc_empty_object)), sample_interceptor) \<and>
   is_list (resolve_url (StringInput ''/backend-api/conversations?a=/backend-api/f/conversation'')) \<and>
   lacks_key test_platform sse_response ''items'' \<and>
   fetch_wrapper test_platform
     (StringInput ''/backend-api/conversations?a=/backend-api/f/conversation'')
     (Inr sse_response) sample_interceptor =
     (Inr (Tapped sse_response
        \<lparr>reader = sse_chunks, decoder = (), buffer = [], enqueued = [], closed = False\<rparr>),
      sample_interceptor)"
proof -
  have l: "is_list (resolve_url (StringInput ''/backend-api/conversations''))"
    unfolding is_list_def resolve_url.simps
    by (rule list_regexI [of _ "[]" "[]"]) simp_all
  have k1: "lacks_key test_platform (text_response ''<html>'') ''items''"
    using parse_known_other [of "CHR ''<''"] by (simp add: lacks_key_def response_json_text)
  have k2: "lacks_key test_platform (text_response doc_empty_object) ''items''"
    by (simp add: lacks_key_def response_json_text parse_known_def)
  have n: "\<not> is_live_stream (resolve_url (StringInput ''/backend-api/conversations'')) (text_response s)" for s
    by (simp add: is_live_stream_def text_response_def str_includes_def)
  have l3: "is_list (resolve_url (StringInput ''/backend-api/conversations?a=/backend-api/f/conversation''))"
    unfolding is_list_def resolve_url.simps
    by (rule list_regexI [of _ "[]" "''?a=/backend-api/f/conversation''"]) simp_all
  have k3: "lacks_key test_platform sse_response ''items''"
    by (simp add: lacks_key_def response_json_sse)
  have s3: "is_live_stream (resolve_url (StringInput ''/backend-api/conversations?a=/backend-api/f/conversation'')) sse_response"
    using is_live_stream_sse by simp
  have t3: "tapSSEStream test_platform sse_response =
     Inr \<lparr>reader = sse_chunks, decoder = (), buffer = [], enqueued = [], closed = False\<rparr>"
    by (simp add: tapSSEStream_def sse_response_def test_platform_def)
  have a: "fetch_wrapper test_platform (StringInput ''/backend-api/conversations'')
     (Inr (text_response ''<html>'')) sample_interceptor =
     (Inr (Original (text_response ''<html>'')), sample_interceptor)"
    using C1_fail_open [of "StringInput ''/backend-api/conversations''" test_platform
         "text_response ''<html>''" sample_interceptor] l k1 n
    by (simp add: prod_eq_iff)
  have b: "fetch_wrapper test_platform (StringInput ''/backend-api/conversations'')
     (Inr (text_response doc_empty_object)) sample_interceptor =
     (Inr (Original (text_response doc_empty_object)), sample_interceptor)"
    using C1_fail_open [of "StringInput ''/backend-api/conversations''" test_platform
         "text_response doc_empty_object" sample_interceptor] l k2 n
    by (simp add: prod_eq_iff)
  have c: "fetch_wrapper test_platform
     (StringInput ''/backend-api/conversations?a=/backend-api/f/conversation'')
     (Inr sse_response) sample_interceptor =
     (Inr (Tapped sse_response
        \<lparr>reader = sse_chunks, decoder = (), buffer = [], enqueued = [], closed = False\<rparr>),
      sample_interceptor)"
    using C1_fail_open [of "StringInput ''/backend-api/conversations?a=/backend-api/f/conversation''"
         test_platform sse_response sample_interceptor] l3 k3 s3 t3
    by (simp add: prod_eq_iff)
  from l k1 k2 l3 k3 a b c show ?thesis by (intro conjI)
qed

section \<open>Drain replay\<close>

lemma inv_init: "list_all (covered interceptor_init) (posted interceptor_init)"
  by (simp add: interceptor_init_def)

lemma extends_keeps_covered:
  assumes "extends st st'" "list_all (covered st) (posted st)"
  shows "list_all (covered st') (posted st')"
proof -
  from assms(1) obtain new where k: "keeps_keys st st'" and p: "posted st' = posted st @ new"
    and n: "list_all (covered st') new"
    unfolding extends_def by blast
  have "list_all (covered st') (posted st)"
    using assms(2) covered_mono [OF k] by (auto simp: list_all_iff)
  with n p show ?thesis by simp
qed

lemma extends_interceptor_step: "extends st (interceptor_step P here a st)"
  by (cases a) (simp_all add: extends_fetch_wrapper extends_processSSEEvent extends_drain_listener)

lemma covered_after_steps:
  "list_all (covered st) (posted st) \<Longrightarrow>
   list_all (covered (fold (interceptor_step P here) acts st))
            (posted (fold (interceptor_step P here) acts st))"
proof (induction acts arbitrary: st)
  case Nil
  then show ?case by simp
next
  case (Cons a acts)
  have "list_all (covered (interceptor_step P here a st)) (posted (interceptor_step P here a st))"
    using extends_interceptor_step Cons.prems by (rule extends_keeps_covered)
  then show ?case using Cons.IH by simp
qed

lemma delivered_origin: "event_origin (delivered here m) = here \<and> event_data (delivered here m) = m"
  by (simp add: delivered_def)

lemma deliver_Nil: "deliver here [] p = p"
  by (simp add: deliver_def)

lemma deliver_Cons: "deliver here (m # ms) p = deliver here ms (message_listener here (delivered here m) p)"
  by (simp add: deliver_def)

lemma deliver_one_timestampMap:
  "timestampMap (message_listener here (delivered here m) p) =
     (case m of TIMEGPT_TIMESTAMPS ts \<Rightarrow> set_all (timestampMap p) ts | _ \<Rightarrow> timestampMap p)"
  by (simp add: listener_timestampMap delivered_origin)

lemma deliver_one_conversationMap:
  "conversationMap (message_listener here (delivered here m) p) =
     (case m of TIMEGPT_CONVERSATIONS cs \<Rightarrow> set_all (conversationMap p) cs | _ \<Rightarrow> conversationMap p)"
  by (simp add: listener_conversationMap delivered_origin)

lemma deliver_keys_timestamps:
  assumes "list_all (covered st) ms"
    and "fst ` set (timestampMap p) \<subseteq> fst ` set (timestampBuffer st)"
  shows "fst ` set (timestampMap (deliver here ms p)) \<subseteq> fst ` set (timestampBuffer st)"
  using assms
proof (induction ms arbitrary: p)
  case Nil
  then show ?case by (simp add: deliver_Nil)
next
  case (Cons m ms)
  have "fst ` set (timestampMap (message_listener here (delivered here m) p))
        \<subseteq> fst ` set (timestampBuffer st)"
    using Cons.prems by (cases m) (simp_all add: deliver_one_timestampMap keys_set_all)
  with Cons.IH Cons.prems(1) show ?case by (simp add: deliver_Cons)
qed

lemma deliver_keys_conversations:
  assumes "list_all (covered st) ms"
    and "fst ` set (conversationMap p) \<subseteq> fst ` set (conversationBuffer st)"
  shows "fst ` set (conversationMap (deliver here ms p)) \<subseteq> fst ` set (conversationBuffer st)"
  using assms
proof (induction ms arbitrary: p)
  case Nil
  then show ?case by (simp add: deliver_Nil)
next
  case (Cons m ms)
  have "fst ` set (conversationMap (message_listener here (delivered here m) p))
        \<subseteq> fst ` set (conversationBuffer st)"
    using Cons.prems by (cases m) (simp_all add: deliver_one_conversationMap keys_set_all)
  with Cons.IH Cons.prems(1) show ?case by (simp add: deliver_Cons)
qed

lemma set_all_over_subset:
  assumes "fst ` set m \<subseteq> fst ` set b"
  shows "map_of (set_all m b) = map_of (set_all [] b)"
proof -
  have "dom (map_of m) \<subseteq> dom (map_of (rev b))"
    using assms by (simp add: dom_map_of_conv_image_fst)
  then have "map_of m ++ map_of (rev b) = map_of (rev b)"
    by (auto simp: map_add_def fun_eq_iff split: option.splits)
  then show ?thesis by (simp add: map_of_set_all)
qed

lemma drain_posts:
  "posted (drain_listener here (requestDrain here) st) =
     posted st @ (if timestampBuffer st \<noteq> [] then [TIMEGPT_TIMESTAMPS (timestampBuffer st)] else [])
               @ (if conversationBuffer st \<noteq> [] then [TIMEGPT_CONVERSATIONS (conversationBuffer st)] else [])"
  by (simp add: drain_listener_def requestDrain_def delivered_def post_def Let_def)

lemma drain_response_timestampMap:
  "timestampMap (deliver here
      ((if timestampBuffer st \<noteq> [] then [TIMEGPT_TIMESTAMPS (timestampBuffer st)] else [])
       @ (if conversationBuffer st \<noteq> [] then [TIMEGPT_CONVERSATIONS (conversationBuffer st)] else [])) p) =
   set_all (timestampMap p) (timestampBuffer st)"
  by (simp add: deliver_Cons deliver_Nil deliver_one_timestampMap set_all_Nil)

lemma drain_response_conversationMap:
  "conversationMap (deliver here
      ((if timestampBuffer st \<noteq> [] then [TIMEGPT_TIMESTAMPS (timestampBuffer st)] else [])
       @ (if conversationBuffer st \<noteq> [] then [TIMEGPT_CONVERSATIONS (conversationBuffer st)] else [])) p) =
   set_all (conversationMap p) (conversationBuffer st)"
  by (simp add: deliver_Cons deliver_Nil deliver_one_conversationMap set_all_Nil)

lemma tidy_init: "tidy interceptor_init"
  by (simp add: tidy_def interceptor_init_def)

lemma tidy_after_steps: "tidy st \<Longrightarrow> tidy (fold (interceptor_step P here) acts st)"
proof (induction acts arbitrary: st)
  case Nil
  then show ?case by simp
next
  case (Cons a acts)
  have "tidy (interceptor_step P here a st)"
    using extends_interceptor_step [of st P here a] Cons.prems by (simp add: extends_def)
  then show ?case using Cons.IH by simp
qed

lemma map_of_set_all_empty: "distinct (map fst b) \<Longrightarrow> map_of (set_all [] b) = map_of b"
  by (simp add: map_of_set_all map_of_rev_distinct)

text \<open>A run of the interceptor on the test platform, computed.\<close>

lemma is_list_plain: "is_list ''/backend-api/conversations''"
  unfolding is_list_def by (rule list_regexI [of _ "[]" "[]"]) simp_all

lemma not_detail_plain: "\<not> is_detail ''/backend-api/conversations''"
  using is_list_plain detail_not_list by blast

lemma not_stream_plain: "\<not> is_live_stream ''/backend-api/conversations'' (text_response s)"
  by (simp add: is_live_stream_def text_response_def str_includes_def)

lemma parse_doc_list: "parse_known doc_list = Some json_list"
  by (simp add: parse_known_def doc_empty_object_def doc_detail_def doc_detail_empty_id_def
      doc_list_def)

lemma parse_doc_input_message: "parse_known doc_input_message = Some json_input_message"
  by (simp add: parse_known_def doc_empty_object_def doc_detail_def doc_detail_empty_id_def
      doc_list_def doc_list_empty_id_def doc_input_message_def)

lemma fetch_doc_list:
  "fetch_wrapper test_platform (StringInput ''/backend-api/conversations'')
     (Inr (text_response doc_list)) interceptor_init =
   (Inr (Original (text_response doc_list)),
    \<lparr>timestampBuffer = [], conversationBuffer = sample_conversations,
     posted = [TIMEGPT_CONVERSATIONS sample_conversations]\<rparr>)"
  by (simp add: fetch_wrapper_def Let_def is_list_plain not_detail_plain not_stream_plain
      response_json_text parse_doc_list extractConversationTimestamps_def json_list_def
      conversation_entry_def broadcast_conversations_def object_assign_def assign_key_def
      interceptor_init_def sample_conversations_def)

lemma split_data_line: "split (''data: '' @ doc_input_message) newline = [''data: '' @ doc_input_message]"
  by (simp add: split_def doc_input_message_def newline_def)

lemma stream_doc_input_message:
  "processSSEEvent test_platform (''data: '' @ doc_input_message) st =
   broadcast_timestamps [(''m2'', \<lparr>createTime = JNum 1700000100, role = JNull\<rparr>)] st"
proof -
  have ne: "doc_input_message \<noteq> [] \<and> doc_input_message \<noteq> ''[DONE]''"
    by (simp add: doc_input_message_def)
  have "extractStreamTimestamp (\<lambda>n. ''0'') json_input_message st =
     Inr (broadcast_timestamps [(''m2'', \<lparr>createTime = JNum 1700000100, role = JNull\<rparr>)] st)"
    by (simp add: extractStreamTimestamp_def json_input_message_def message_entry_def
        stream_message_def assign_key_def)
  moreover have js: "fold (\<lambda>line js. if prefix ''data: '' line then drop 6 line else js)
              (split (''data: '' @ doc_input_message) newline) [] = doc_input_message"
    unfolding split_data_line by simp
  ultimately show ?thesis
    unfolding processSSEEvent_def Let_def js using ne
    by (simp add: test_platform_def parse_doc_input_message)
qed

lemma sample_run:
  "fold (interceptor_step test_platform origin_here) sample_actions interceptor_init = sample_after"
  unfolding sample_actions_def fold_simps interceptor_step.simps o_apply fetch_doc_list snd_conv
    stream_doc_input_message
  by (simp add: broadcast_timestamps_def object_assign_def assign_key_def sample_after_def
      stream_timestamps_def)

lemma sample_drain:
  "deliver origin_here
     (drop (length (posted sample_after))
        (posted (drain_listener origin_here (requestDrain origin_here) sample_after)))
     (deliver origin_here [TIMEGPT_CONVERSATIONS sample_conversations] sample_presenter) =
   \<lparr>timestampMap = stream_timestamps, conversationMap = sample_conversations,
    showMessages = True, showSidebar = True,
    rendered = [ApplySidebarTimestamps, ApplyMessageTimestamps]\<rparr>"
  by (simp add: deliver_def delivered_def message_listener_def drain_listener_def requestDrain_def
      post_def Let_def has_key_def sample_after_def sample_presenter_def sample_conversations_def
      stream_timestamps_def)

text \<open>
  Claim C5: let the interceptor have run any sequence of fetch calls, stream events
  and window messages from its initial state, and let the presenter, starting from
  empty record maps, have merged any of the batches the interceptor posted on the way.
  After one drain (the interceptor posts each buffer that is not empty, the presenter
  merges what was posted) each record map of the presenter has exactly the keys of the
  interceptor's buffer of its category, each with the value the buffer holds for it;
  and this is the map obtained by merging the whole buffer into an empty map.
\<close>

theorem C5_drain_replay:
  assumes "st = fold (interceptor_step P here) acts interceptor_init"
    and "set received \<subseteq> set (posted st)"
    and "timestampMap p0 = []" and "conversationMap p0 = []"
  shows "map_of (timestampMap
           (deliver here
              (drop (length (posted st)) (posted (drain_listener here (requestDrain here) st)))
              (deliver here received p0))) =
         map_of (timestampBuffer st) \<and>
         map_of (conversationMap
           (deliver here
              (drop (length (posted st)) (posted (drain_listener here (requestDrain here) st)))
              (deliver here received p0))) =
         map_of (conversationBuffer st) \<and>
         map_of (fst (merge_entries (timestampBuffer st) ([], 0))) = map_of (timestampBuffer st) \<and>
         map_of (fst (merge_entries (conversationBuffer st) ([], 0))) =
           map_of (conversationBuffer st)"
proof -
  define p where "p = deliver here received p0"
  have "list_all (covered st) (posted st)"
    unfolding assms(1) using inv_init by (rule covered_after_steps)
  with assms(2) have rc: "list_all (covered st) received"
    by (auto simp: list_all_iff)
  have "tidy st"
    unfolding assms(1) using tidy_init by (rule tidy_after_steps)
  then have dt: "distinct (map fst (timestampBuffer st))"
    and dc: "distinct (map fst (conversationBuffer st))"
    by (simp_all add: tidy_def)
  have kt: "fst ` set (timestampMap p) \<subseteq> fst ` set (timestampBuffer st)"
    unfolding p_def using rc by (rule deliver_keys_timestamps) (simp add: assms(3))
  have kc: "fst ` set (conversationMap p) \<subseteq> fst ` set (conversationBuffer st)"
    unfolding p_def using rc by (rule deliver_keys_conversations) (simp add: assms(4))
  have resp: "drop (length (posted st)) (posted (drain_listener here (requestDrain here) st)) =
      (if timestampBuffer st \<noteq> [] then [TIMEGPT_TIMESTAMPS (timestampBuffer st)] else [])
       @ (if conversationBuffer st \<noteq> [] then [TIMEGPT_CONVERSATIONS (conversationBuffer st)] else [])"
    by (simp only: drain_posts append_eq_conv_conj drop_append length_append) simp
  have "map_of (set_all (timestampMap p) (timestampBuffer st)) = map_of (timestampBuffer st)"
    using set_all_over_subset [OF kt] map_of_set_all_empty [OF dt] by simp
  moreover have "map_of (set_all (conversationMap p) (conversationBuffer st)) =
        map_of (conversationBuffer st)"
    using set_all_over_subset [OF kc] map_of_set_all_empty [OF dc] by simp
  moreover note map_of_set_all_empty [OF dt] map_of_set_all_empty [OF dc]
  ultimately show ?thesis
    unfolding p_def [symmetric] resp drain_response_timestampMap drain_response_conversationMap
      merge_entries_map
    by (intro conjI)
qed

theorem C5_drain_replay_witness:
  "sample_after = fold (interceptor_step test_platform origin_here) sample_actions interceptor_init \<and>
   set [TIMEGPT_CONVERSATIONS sample_conversations] \<subseteq> set (posted sample_after) \<and>
   timestampMap sample_presenter = [] \<and> conversationMap sample_presenter = [] \<and>
   timestampBuffer sample_after = stream_timestamps \<and>
   conversationBuffer sample_after = sample_conversations \<and>
   timestampMap (deliver origin_here
     (drop (length (posted sample_after))
        (posted (drain_listener origin_here (requestDrain origin_here) sample_after)))
     (deliver origin_here [TIMEGPT_CONVERSATIONS sample_conversations] sample_presenter)) =
     stream_timestamps \<and>
   conversationMap (deliver origin_here
     (drop (length (posted sample_after))
        (posted (drain_listener origin_here (requestDrain origin_here) sample_after)))
     (deliver origin_here [TIMEGPT_CONVERSATIONS sample_conversations] sample_presenter)) =
     sample_conversations \<and>
   map_of (timestampMap (deliver origin_here
     (drop (length (posted sample_after))
        (posted (drain_listener origin_here (requestDrain origin_here) sample_after)))
     (deliver origin_here [TIMEGPT_CONVERSATIONS sample_conversations] sample_presenter))) =
     map_of (timestampBuffer sample_after) \<and>
   map_of (conversationMap (deliver origin_here
     (drop (length (posted sample_after))
        (posted (drain_listener origin_here (requestDrain origin_here) sample_after)))
     (deliver origin_here [TIMEGPT_CONVERSATIONS sample_conversations] sample_presenter))) =
     map_of (conversationBuffer sample_after)"
proof -
  have h1: "sample_after =
      fold (interceptor_step test_platform origin_here) sample_actions interceptor_init"
    by (rule sample_run [symmetric])
  have h2: "set [TIMEGPT_CONVERSATIONS sample_conversations] \<subseteq> set (posted sample_after)"
    by (simp add: sample_after_def)
  have h3: "timestampMap sample_presenter = []" by (simp add: sample_presenter_def)
  have h4: "conversationMap sample_presenter = []" by (simp add: sample_presenter_def)
  have b: "timestampBuffer sample_after = stream_timestamps \<and>
           conversationBuffer sample_after = sample_conversations"
    by (simp add: sample_after_def)
  have v: "timestampMap (deliver origin_here
     (drop (length (posted sample_after))
        (posted (drain_listener origin_here (requestDrain origin_here) sample_after)))
     (deliver origin_here [TIMEGPT_CONVERSATIONS sample_conversations] sample_presenter)) =
     stream_timestamps \<and>
   conversationMap (deliver origin_here
     (drop (length (posted sample_after))
        (posted (drain_listener origin_here (requestDrain origin_here) sample_after)))
     (deliver origin_here [TIMEGPT_CONVERSATIONS sample_conversations] sample_presenter)) =
     sample_conversations"
    unfolding sample_drain by simp
  from C5_drain_replay [OF h1 h2 h3 h4] h1 h2 h3 h4 b v
  show ?thesis by (intro conjI) (simp_all only: simp_thms)
qed

section \<open>Detail extraction\<close>

lemma absent_or_null_string:
  "absent_or_null is_string x \<Longrightarrow> x = None \<or> x = Some JNull \<or> (\<exists>s. x = Some (JStr s))"
  by (cases x; cases "the x") simp_all

lemma or_null_string:
  "absent_or_null is_string x \<Longrightarrow> or_null x = null_when_empty x"
  by (cases x; cases "the x") (simp_all add: null_when_empty_def)

text \<open>A node of the declared shape never makes the loop throw, and the loop counts it
  exactly when it is a counted node, with the entry the specification gives it.\<close>

lemma conforms_node_entry:
  assumes "conforms_node node"
  shows "member node ''message'' = Inr (get_prop node ''message'') \<and>
         message_entry ns (get_prop node ''message'') =
           Inr (if counted_node node then Some (node_entry node) else None)"
proof -
  from assms obtain kvs where n: "node = JObj kvs"
    unfolding conforms_node_def by (cases node) simp_all
  have m: "member node ''message'' = Inr (get_prop node ''message'')" by (simp add: n)
  let ?msg = "get_prop node ''message''"
  have idc: "absent_or_null is_string (opt_member ?msg ''id'')"
    and ac: "absent_or_null conforms_author (opt_member ?msg ''author'')"
  proof -
    show "absent_or_null is_string (opt_member ?msg ''id'')"
      using assms unfolding conforms_node_def conforms_message_def
      by (cases ?msg; cases "the ?msg") auto
    show "absent_or_null conforms_author (opt_member ?msg ''author'')"
      using assms unfolding conforms_node_def conforms_message_def
      by (cases ?msg; cases "the ?msg") auto
  qed
  have rc: "absent_or_null is_string (opt_member (opt_member ?msg ''author'') ''role'')"
    using ac unfolding conforms_author_def
    by (cases "opt_member ?msg ''author''"; cases "the (opt_member ?msg ''author'')") auto
  note role = or_null_string [OF rc]
  from absent_or_null_string [OF idc] show ?thesis
  proof (elim disjE exE)
    assume "opt_member ?msg ''id'' = None"
    then show ?thesis using m
      by (simp add: message_entry_def counted_node_def claimed_node_def)
  next
    assume "opt_member ?msg ''id'' = Some JNull"
    then show ?thesis using m
      by (simp add: message_entry_def counted_node_def claimed_node_def)
  next
    fix s assume i: "opt_member ?msg ''id'' = Some (JStr s)"
    show ?thesis
    proof (cases "opt_member ?msg ''create_time''")
      case None
      then show ?thesis using m i
        by (simp add: message_entry_def counted_node_def claimed_node_def)
    next
      case (Some t)
      have "nullish (Some t) \<longleftrightarrow> t = JNull" by (cases t) simp_all
      with Some show ?thesis using m i role
        by (cases "t = JNull")
           (auto simp: message_entry_def counted_node_def claimed_node_def node_entry_def
              node_id_def)
    qed
  qed
qed

lemma fst_node_entry: "fst (node_entry node) = node_id node"
  by (simp add: node_entry_def)

lemma detail_loop_conforming:
  assumes "list_all conforms_node nodes"
    and "distinct (map fst ts @ map node_id (filter kept_node nodes))"
  shows "detail_loop ns nodes (ts, c) =
           Inr (ts @ map node_entry (filter kept_node nodes),
                c + length (filter counted_node nodes))"
  using assms
proof (induction nodes arbitrary: ts c)
  case Nil
  then show ?case by simp
next
  case (Cons node nodes)
  from Cons.prems(1) have cn: "conforms_node node" and rest: "list_all conforms_node nodes"
    by simp_all
  note e = conforms_node_entry [OF cn, of ns]
  show ?case
  proof (cases "counted_node node")
    case False
    then have nk: "\<not> kept_node node" by (simp add: kept_node_def)
    with Cons.prems(2) have "distinct (map fst ts @ map node_id (filter kept_node nodes))" by simp
    from Cons.IH [OF rest this] False nk e show ?thesis by simp
  next
    case True
    obtain k v where kv: "node_entry node = (k, v)" by (cases "node_entry node")
    then have k: "k = node_id node" using fst_node_entry [of node] by simp
    have step: "detail_loop ns (node # nodes) (ts, c) =
                detail_loop ns nodes (assign_key k v ts, c + 1)"
      using True e kv by simp
    show ?thesis
    proof (cases "k = ''__proto__''")
      case p: True
      then have nk: "\<not> kept_node node" by (simp add: kept_node_def k)
      with Cons.prems(2) have d: "distinct (map fst ts @ map node_id (filter kept_node nodes))"
        by simp
      have "detail_loop ns (node # nodes) (ts, c) = detail_loop ns nodes (ts, c + 1)"
        using step p by (simp add: assign_key_def)
      also have "\<dots> = Inr (ts @ map node_entry (filter kept_node nodes),
                          (c + 1) + length (filter counted_node nodes))"
        by (rule Cons.IH [OF rest d])
      finally show ?thesis using True nk by simp
    next
      case np: False
      with True have kn: "kept_node node" by (simp add: kept_node_def k)
      from kn Cons.prems(2) have fresh: "k \<notin> fst ` set ts" by (auto simp: k)
      have d: "distinct (map fst (ts @ [(k, v)]) @ map node_id (filter kept_node nodes))"
        using kn Cons.prems(2) by (auto simp: k)
      have "detail_loop ns (node # nodes) (ts, c) = detail_loop ns nodes (ts @ [(k, v)], c + 1)"
        using step np set_key_fresh [OF fresh] by (simp add: assign_key_def)
      also have "\<dots> = Inr ((ts @ [(k, v)]) @ map node_entry (filter kept_node nodes),
                          (c + 1) + length (filter counted_node nodes))"
        by (rule Cons.IH [OF rest d])
      finally show ?thesis using True kn kv by simp
    qed
  qed
qed

lemma conforms_detail_nodes:
  assumes "conforms_detail data"
  shows "(case get_prop data ''mapping'' of
            None \<Rightarrow> mapping_nodes data = []
          | Some mapping \<Rightarrow>
              (if truthy mapping then entry_values mapping = mapping_nodes data
               else mapping_nodes data = []))"
proof (cases "get_prop data ''mapping''")
  case None
  then show ?thesis by (simp add: mapping_nodes_def)
next
  case (Some mapping)
  with assms have "absent_or_null is_object (Some mapping)" by (simp add: conforms_detail_def)
  then show ?thesis using Some
    by (cases mapping) (simp_all add: mapping_nodes_def)
qed

lemma map_of_distinct_entry:
  "distinct (map f xs) \<Longrightarrow> x \<in> set xs \<Longrightarrow> map_of (map (\<lambda>x. (f x, g x)) xs) (f x) = Some (g x)"
  by (induction xs) (auto simp: rev_image_eqI)

text \<open>
  Claim C3, as stated: for every well-formed detail body the number of entries
  produced equals the number of mapping nodes whose message has a non-null id and a
  non-null \<open>create_time\<close>. It fails on a body of the declared shape: the extraction
  tests the id for truthiness, so the node whose message has the id \<open>""\<close> (not \<open>null\<close>)
  and a \<open>create_time\<close> is counted by the claim and passed over by the code, which
  produces no entry and posts nothing.
\<close>

theorem C3_empty_id_not_counted:
  "conforms_detail json_detail_empty_id \<and>
   length (filter claimed_node (mapping_nodes json_detail_empty_id)) = 1 \<and>
   extractMessageTimestamps (numToString test_platform) json_detail_empty_id interceptor_init =
     Inr interceptor_init \<and>
   posted interceptor_init = []"
  by (simp add: json_detail_empty_id_def conforms_detail_def mapping_nodes_def conforms_node_def
      conforms_message_def claimed_node_def extractMessageTimestamps_def message_entry_def
      interceptor_init_def)

text \<open>
  Claim C3, amended: take a detail body of the declared shape (a field that may be
  absent may also be \<open>null\<close>), and in it the nodes whose message has a non-empty id
  other than \<open>__proto__\<close> and a non-null \<open>create_time\<close>; let their ids be pairwise
  distinct. Extraction produces one entry for each of these nodes and no other, so the
  number of entries is the number of these nodes; the entry of a node is keyed by the
  message id, its \<open>createTime\<close> is the \<open>create_time\<close> of the message and its \<open>role\<close> is
  the author role, or \<open>null\<close> when the author or the role is absent, \<open>null\<close> or empty.
  The entries are merged into the buffer and posted as one batch when some message has
  a non-empty id and a non-null \<open>create_time\<close> (the batch is empty when every such id
  is \<open>__proto__\<close>, which the assignment does not store as a key); otherwise the
  state is left as it was.
\<close>

theorem C3_detail_entries:
  assumes "conforms_detail data"
    and "distinct (map node_id (filter kept_node (mapping_nodes data)))"
  shows "\<exists>batch.
           extractMessageTimestamps ns data st =
             Inr (if filter counted_node (mapping_nodes data) = [] then st else broadcast_timestamps batch st) \<and>
           length batch = length (filter kept_node (mapping_nodes data)) \<and>
           fst ` set batch = node_id ` set (filter kept_node (mapping_nodes data)) \<and>
           (\<forall>node \<in> set (filter kept_node (mapping_nodes data)).
              map_of batch (node_id node) = Some (snd (node_entry node)))"
proof -
  let ?kept = "filter kept_node (mapping_nodes data)"
  let ?counted = "filter counted_node (mapping_nodes data)"
  from assms(1) have all: "list_all conforms_node (mapping_nodes data)"
    by (simp add: conforms_detail_def)
  have loop: "detail_loop ns (mapping_nodes data) ([], 0) =
              Inr (map node_entry ?kept, length ?counted)"
    using detail_loop_conforming [OF all, of "[]" ns 0] assms(2) by simp
  have 1: "extractMessageTimestamps ns data st =
           Inr (if ?counted = [] then st else broadcast_timestamps (map node_entry ?kept) st)"
  proof (cases "get_prop data ''mapping''")
    case None
    with conforms_detail_nodes [OF assms(1)] show ?thesis
      by (simp add: extractMessageTimestamps_def)
  next
    case (Some mapping)
    show ?thesis
    proof (cases "truthy mapping")
      case True
      with Some conforms_detail_nodes [OF assms(1)]
      have "entry_values mapping = mapping_nodes data" by simp
      with Some True loop show ?thesis by (simp add: extractMessageTimestamps_def)
    next
      case False
      with Some conforms_detail_nodes [OF assms(1)]
      have "mapping_nodes data = []" by simp
      with Some False show ?thesis by (simp add: extractMessageTimestamps_def)
    qed
  qed
  have ne: "node_entry = (\<lambda>n. (node_id n, snd (node_entry n)))"
    by (rule ext) (simp add: fst_node_entry [symmetric])
  have 3: "map_of (map node_entry ?kept) (node_id node) = Some (snd (node_entry node))"
    if "node \<in> set ?kept" for node
    using map_of_distinct_entry [OF assms(2) that, of "\<lambda>n. snd (node_entry n)"]
    by (subst ne) simp
  have 4: "fst ` set (map node_entry ?kept) = node_id ` set ?kept"
    by (simp add: image_image fst_node_entry)
  from 1 3 4 have "extractMessageTimestamps ns data st =
             Inr (if ?counted = [] then st else broadcast_timestamps (map node_entry ?kept) st) \<and>
           length (map node_entry ?kept) = length ?kept \<and>
           fst ` set (map node_entry ?kept) = node_id ` set ?kept \<and>
           (\<forall>node \<in> set ?kept. map_of (map node_entry ?kept) (node_id node) = Some (snd (node_entry node)))"
    by simp
  then show ?thesis by (rule exI)
qed

theorem C3_detail_entries_witness:
  "conforms_detail json_detail_mixed \<and>
   length (filter claimed_node (mapping_nodes json_detail_mixed)) = 2 \<and>
   length (filter counted_node (mapping_nodes json_detail_mixed)) = 2 \<and>
   distinct (map node_id (filter kept_node (mapping_nodes json_detail_mixed))) \<and>
   map node_entry (filter kept_node (mapping_nodes json_detail_mixed)) = sample_timestamps \<and>
   extractMessageTimestamps (numToString test_platform) json_detail_mixed interceptor_init =
     Inr (broadcast_timestamps sample_timestamps interceptor_init) \<and>
   broadcast_timestamps sample_timestamps interceptor_init =
     \<lparr>timestampBuffer = sample_timestamps, conversationBuffer = [],
      posted = [TIMEGPT_TIMESTAMPS sample_timestamps]\<rparr> \<and>
   (\<exists>batch.
      extractMessageTimestamps (numToString test_platform) json_detail_mixed interceptor_init =
        Inr (if filter counted_node (mapping_nodes json_detail_mixed) = [] then interceptor_init
             else broadcast_timestamps batch interceptor_init) \<and>
      length batch = length (filter kept_node (mapping_nodes json_detail_mixed)) \<and>
      fst ` set batch = node_id ` set (filter kept_node (mapping_nodes json_detail_mixed)) \<and>
      (\<forall>node \<in> set (filter kept_node (mapping_nodes json_detail_mixed)).
         map_of batch (node_id node) = Some (snd (node_entry node))))"
proof -
  have c: "conforms_detail json_detail_mixed"
    by (simp add: json_detail_mixed_def conforms_detail_def mapping_nodes_def conforms_node_def
        conforms_message_def conforms_author_def)
  have cl: "length (filter claimed_node (mapping_nodes json_detail_mixed)) = 2"
    by (simp add: json_detail_mixed_def mapping_nodes_def claimed_node_def)
  have n: "length (filter counted_node (mapping_nodes json_detail_mixed)) = 2"
    by (simp add: json_detail_mixed_def mapping_nodes_def counted_node_def claimed_node_def
        node_id_def)
  have e: "map node_entry (filter kept_node (mapping_nodes json_detail_mixed)) = sample_timestamps"
    by (simp add: json_detail_mixed_def mapping_nodes_def kept_node_def counted_node_def
        claimed_node_def node_entry_def node_id_def null_when_empty_def sample_timestamps_def)
  have d: "distinct (map node_id (filter kept_node (mapping_nodes json_detail_mixed)))"
    by (simp add: json_detail_mixed_def mapping_nodes_def kept_node_def counted_node_def
        claimed_node_def node_id_def)
  have b: "broadcast_timestamps sample_timestamps interceptor_init =
     \<lparr>timestampBuffer = sample_timestamps, conversationBuffer = [],
      posted = [TIMEGPT_TIMESTAMPS sample_timestamps]\<rparr>"
    by (simp add: broadcast_timestamps_def interceptor_init_def object_assign_def assign_key_def
        sample_timestamps_def)
  have x: "extractMessageTimestamps (numToString test_platform) json_detail_mixed interceptor_init =
     Inr (broadcast_timestamps sample_timestamps interceptor_init)"
    by (simp add: extractMessageTimestamps_def json_detail_mixed_def message_entry_def detail_loop.simps
        assign_key_def sample_timestamps_def)
  from C3_detail_entries [OF c d, of "numToString test_platform" interceptor_init] c cl n d e b x
  show ?thesis by (intro conjI) (simp_all only: simp_thms)
qed

section \<open>List extraction\<close>

lemma conforms_item_entry:
  assumes "conforms_item item"
  shows "item \<noteq> JNull \<and>
         conversation_entry ns item =
           Inr (if counted_item item then Some (item_entry item) else None)"
proof -
  from assms obtain kvs where it: "item = JObj kvs"
    unfolding conforms_item_def by (cases item) simp_all
  have idc: "absent_or_null is_string (get_prop item ''id'')"
    and tc: "absent_or_null is_string (get_prop item ''create_time'')"
    and uc: "absent_or_null is_string (get_prop item ''update_time'')"
    and lc: "absent_or_null is_string (get_prop item ''title'')"
    using assms by (simp_all add: conforms_item_def)
  note nu = or_null_string [OF uc] or_null_string [OF lc]
  from absent_or_null_string [OF idc] absent_or_null_string [OF tc] show ?thesis
    using nu
    by (auto simp: it conversation_entry_def counted_item_def item_entry_def item_id_def)
qed

lemma fst_item_entry: "fst (item_entry item) = item_id item"
  by (simp add: item_entry_def)

lemma list_loop_conforming:
  assumes "list_all conforms_item items"
    and "distinct (map fst cs @ map item_id (filter kept_item items))"
  shows "list_loop ns items (cs, c) =
           Inr (cs @ map item_entry (filter kept_item items),
                c + length (filter counted_item items))"
  using assms
proof (induction items arbitrary: cs c)
  case Nil
  then show ?case by simp
next
  case (Cons item items)
  from Cons.prems(1) have ci: "conforms_item item" and rest: "list_all conforms_item items"
    by simp_all
  note e = conforms_item_entry [OF ci, of ns]
  show ?case
  proof (cases "counted_item item")
    case False
    then have nk: "\<not> kept_item item" by (simp add: kept_item_def)
    with Cons.prems(2) have "distinct (map fst cs @ map item_id (filter kept_item items))" by simp
    from Cons.IH [OF rest this] False nk e show ?thesis by simp
  next
    case True
    obtain k v where kv: "item_entry item = (k, v)" by (cases "item_entry item")
    then have k: "k = item_id item" using fst_item_entry [of item] by simp
    have step: "list_loop ns (item # items) (cs, c) =
                list_loop ns items (assign_key k v cs, c + 1)"
      using True e kv by simp
    show ?thesis
    proof (cases "k = ''__proto__''")
      case p: True
      then have nk: "\<not> kept_item item" by (simp add: kept_item_def k)
      with Cons.prems(2) have d: "distinct (map fst cs @ map item_id (filter kept_item items))"
        by simp
      have "list_loop ns (item # items) (cs, c) = list_loop ns items (cs, c + 1)"
        using step p by (simp add: assign_key_def)
      also have "\<dots> = Inr (cs @ map item_entry (filter kept_item items),
                          (c + 1) + length (filter counted_item items))"
        by (rule Cons.IH [OF rest d])
      finally show ?thesis using True nk by simp
    next
      case np: False
      with True have kn: "kept_item item" by (simp add: kept_item_def k)
      from kn Cons.prems(2) have fresh: "k \<notin> fst ` set cs" by (auto simp: k)
      have d: "distinct (map fst (cs @ [(k, v)]) @ map item_id (filter kept_item items))"
        using kn Cons.prems(2) by (auto simp: k)
      have "list_loop ns (item # items) (cs, c) = list_loop ns items (cs @ [(k, v)], c + 1)"
        using step np set_key_fresh [OF fresh] by (simp add: assign_key_def)
      also have "\<dots> = Inr ((cs @ [(k, v)]) @ map item_entry (filter kept_item items),
                          (c + 1) + length (filter counted_item items))"
        by (rule Cons.IH [OF rest d])
      finally show ?thesis using True kn kv by simp
    qed
  qed
qed

text \<open>
  Claim C4, as stated: for every well-formed list body the number of entries produced
  equals the number of items in which \<open>id\<close> and \<open>create_time\<close> are both present. It
  fails on a body of the declared shape: the extraction tests both fields for
  truthiness, so the item with the id \<open>""\<close> and a \<open>create_time\<close> is counted by the claim
  and passed over by the code, which produces no entry and posts nothing.
\<close>

theorem C4_empty_id_not_counted:
  "conforms_list json_list_empty_id \<and>
   length (filter claimed_item (list_items json_list_empty_id)) = 1 \<and>
   extractConversationTimestamps (numToString test_platform) json_list_empty_id interceptor_init =
     Inr interceptor_init \<and>
   posted interceptor_init = []"
  by (simp add: json_list_empty_id_def conforms_list_def list_items_def conforms_item_def
      claimed_item_def extractConversationTimestamps_def conversation_entry_def
      interceptor_init_def)

text \<open>
  Claim C4, amended: take a list body of the declared shape (a field that may be
  absent may also be \<open>null\<close>), and in it the items with a non-empty id other than
  \<open>__proto__\<close> and a non-empty \<open>create_time\<close>; let their ids be pairwise distinct.
  Extraction produces one entry for each of these items and no other, so the number of
  entries is the number of these items; the entry of an item is keyed by the item id,
  its \<open>createTime\<close> is the \<open>create_time\<close> of the item, and its \<open>updateTime\<close> and its
  \<open>title\<close> are those of the item, or \<open>null\<close> when absent, \<open>null\<close> or empty. The entries
  are merged into the buffer and posted as one batch when some item has a non-empty id
  and a non-empty \<open>create_time\<close> (the batch is empty when every such id is
  \<open>__proto__\<close>, which the assignment does not store as a key); otherwise the state is
  left as it was.
\<close>

theorem C4_list_entries:
  assumes "conforms_list data"
    and "distinct (map item_id (filter kept_item (list_items data)))"
  shows "\<exists>batch.
           extractConversationTimestamps ns data st =
             Inr (if filter counted_item (list_items data) = [] then st else broadcast_conversations batch st) \<and>
           length batch = length (filter kept_item (list_items data)) \<and>
           fst ` set batch = item_id ` set (filter kept_item (list_items data)) \<and>
           (\<forall>item \<in> set (filter kept_item (list_items data)).
              map_of batch (item_id item) = Some (snd (item_entry item)))"
proof -
  let ?kept = "filter kept_item (list_items data)"
  let ?counted = "filter counted_item (list_items data)"
  from assms(1) have all: "list_all conforms_item (list_items data)"
    by (simp add: conforms_list_def)
  have loop: "list_loop ns (list_items data) ([], 0) =
              Inr (map item_entry ?kept, length ?counted)"
    using list_loop_conforming [OF all, of "[]" ns 0] assms(2) by simp
  have 1: "extractConversationTimestamps ns data st =
           Inr (if ?counted = [] then st else broadcast_conversations (map item_entry ?kept) st)"
  proof (cases "get_prop data ''items''")
    case None
    then show ?thesis by (simp add: extractConversationTimestamps_def list_items_def)
  next
    case (Some items)
    with assms(1) have "absent_or_null is_array (Some items)" by (simp add: conforms_list_def)
    then have "items = JNull \<or> (\<exists>xs. items = JArr xs)" by (cases items) simp_all
    then show ?thesis
    proof (elim disjE exE)
      assume "items = JNull"
      with Some show ?thesis by (simp add: extractConversationTimestamps_def list_items_def)
    next
      fix xs assume "items = JArr xs"
      with Some loop show ?thesis
        by (simp add: extractConversationTimestamps_def list_items_def)
    qed
  qed
  have ne: "item_entry = (\<lambda>n. (item_id n, snd (item_entry n)))"
    by (rule ext) (simp add: fst_item_entry [symmetric])
  have 3: "map_of (map item_entry ?kept) (item_id item) = Some (snd (item_entry item))"
    if "item \<in> set ?kept" for item
    using map_of_distinct_entry [OF assms(2) that, of "\<lambda>n. snd (item_entry n)"]
    by (subst ne) simp
  have 4: "fst ` set (map item_entry ?kept) = item_id ` set ?kept"
    by (simp add: image_image fst_item_entry)
  from 1 3 4 have "extractConversationTimestamps ns data st =
             Inr (if ?counted = [] then st else broadcast_conversations (map item_entry ?kept) st) \<and>
           length (map item_entry ?kept) = length ?kept \<and>
           fst ` set (map item_entry ?kept) = item_id ` set ?kept \<and>
           (\<forall>item \<in> set ?kept. map_of (map item_entry ?kept) (item_id item) = Some (snd (item_entry item)))"
    by simp
  then show ?thesis by (rule exI)
qed

theorem C4_list_entries_witness:
  "conforms_list json_list_mixed \<and>
   length (filter counted_item (list_items json_list_mixed)) = 2 \<and>
   distinct (map item_id (filter kept_item (list_items json_list_mixed))) \<and>
   map item_entry (filter kept_item (list_items json_list_mixed)) = sample_conversations \<and>
   extractConversationTimestamps (numToString test_platform) json_list_mixed interceptor_init =
     Inr (broadcast_conversations sample_conversations interceptor_init) \<and>
   broadcast_conversations sample_conversations interceptor_init =
     \<lparr>timestampBuffer = [], conversationBuffer = sample_conversations,
      posted = [TIMEGPT_CONVERSATIONS sample_conversations]\<rparr> \<and>
   (\<exists>batch.
      extractConversationTimestamps (numToString test_platform) json_list_mixed interceptor_init =
        Inr (if filter counted_item (list_items json_list_mixed) = [] then interceptor_init
             else broadcast_conversations batch interceptor_init) \<and>
      length batch = length (filter kept_item (list_items json_list_mixed)) \<and>
      fst ` set batch = item_id ` set (filter kept_item (list_items json_list_mixed)) \<and>
      (\<forall>item \<in> set (filter kept_item (list_items json_list_mixed)).
         map_of batch (item_id item) = Some (snd (item_entry item))))"
proof -
  have c: "conforms_list json_list_mixed"
    by (simp add: json_list_mixed_def conforms_list_def list_items_def conforms_item_def)
  have n: "length (filter counted_item (list_items json_list_mixed)) = 2"
    by (simp add: json_list_mixed_def list_items_def counted_item_def item_id_def)
  have e: "map item_entry (filter kept_item (list_items json_list_mixed)) = sample_conversations"
    by (simp add: json_list_mixed_def list_items_def kept_item_def counted_item_def
        item_entry_def item_id_def null_when_empty_def sample_conversations_def)
  have d: "distinct (map item_id (filter kept_item (list_items json_list_mixed)))"
    by (simp add: json_list_mixed_def list_items_def kept_item_def counted_item_def item_id_def)
  have b: "broadcast_conversations sample_conversations interceptor_init =
     \<lparr>timestampBuffer = [], conversationBuffer = sample_conversations,
      posted = [TIMEGPT_CONVERSATIONS sample_conversations]\<rparr>"
    by (simp add: broadcast_conversations_def interceptor_init_def object_assign_def
        assign_key_def sample_conversations_def)
  have x: "extractConversationTimestamps (numToString test_platform) json_list_mixed interceptor_init =
     Inr (broadcast_conversations sample_conversations interceptor_init)"
    by (simp add: extractConversationTimestamps_def json_list_mixed_def conversation_entry_def
        assign_key_def sample_conversations_def)
  from C4_list_entries [OF c d, of "numToString test_platform" interceptor_init] c n d e b x
  show ?thesis by (intro conjI) (simp_all only: simp_thms)
qed

section \<open>Filtering by falsiness\<close>

lemma empty_field_no_conversation_entry:
  "get_prop item ''id'' = Some (JStr []) \<or> get_prop item ''create_time'' = Some (JStr []) \<Longrightarrow>
   conversation_entry ns item = Inr None"
  by (auto simp: conversation_entry_def split: option.splits)

lemma has_prop_not_null: "get_prop x name = Some v \<Longrightarrow> x \<noteq> JNull"
  by (cases x) simp_all

lemma has_prop_member: "get_prop x name = Some v \<Longrightarrow> member x name' = Inr (get_prop x name')"
  by (cases x) simp_all

text \<open>
  Claim C10: the extraction filters by falsiness. A list item whose \<open>id\<close> or
  \<open>create_time\<close> is the empty string gives no entry, and the loop goes on from it with
  the entries and the count it had; a mapping node whose message has the empty string
  as \<open>id\<close> likewise; and in an entry that is produced the title of an item whose
  \<open>title\<close> is the empty string, and the role of a message whose author's \<open>role\<close> is the
  empty string, are \<open>null\<close>.
\<close>

theorem C10_falsy_fields:
  "(get_prop item ''id'' = Some (JStr []) \<or> get_prop item ''create_time'' = Some (JStr [])
      \<longrightarrow> conversation_entry ns item = Inr None \<and>
          list_loop ns (item # items) (cs, count) = list_loop ns items (cs, count)) \<and>
   (opt_member (get_prop node ''message'') ''id'' = Some (JStr [])
      \<longrightarrow> message_entry ns (get_prop node ''message'') = Inr None \<and>
          detail_loop ns (node # nodes) (ts, count) = detail_loop ns nodes (ts, count)) \<and>
   (conversation_entry ns item = Inr (Some (k, e)) \<and> get_prop item ''title'' = Some (JStr [])
      \<longrightarrow> title e = JNull) \<and>
   (message_entry ns msg = Inr (Some (k', e')) \<and>
    opt_member (opt_member msg ''author'') ''role'' = Some (JStr [])
      \<longrightarrow> role e' = JNull)"
proof (intro conjI impI)
  assume a: "get_prop item ''id'' = Some (JStr []) \<or> get_prop item ''create_time'' = Some (JStr [])"
  then show n: "conversation_entry ns item = Inr None"
    by (rule empty_field_no_conversation_entry)
  from a have "item \<noteq> JNull" using has_prop_not_null by blast
  with n show "list_loop ns (item # items) (cs, count) = list_loop ns items (cs, count)"
    by simp
next
  assume a: "opt_member (get_prop node ''message'') ''id'' = Some (JStr [])"
  then show n: "message_entry ns (get_prop node ''message'') = Inr None"
    by (simp add: message_entry_def)
  from a obtain msg where "get_prop node ''message'' = Some msg"
    by (cases "get_prop node ''message''") simp_all
  then have "member node ''message'' = Inr (get_prop node ''message'')"
    by (rule has_prop_member)
  with n show "detail_loop ns (node # nodes) (ts, count) = detail_loop ns nodes (ts, count)"
    by simp
next
  assume "conversation_entry ns item = Inr (Some (k, e)) \<and> get_prop item ''title'' = Some (JStr [])"
  then show "title e = JNull"
    by (auto simp: conversation_entry_def split: option.splits if_splits sum.splits)
next
  assume "message_entry ns msg = Inr (Some (k', e')) \<and>
    opt_member (opt_member msg ''author'') ''role'' = Some (JStr [])"
  then show "role e' = JNull"
    by (auto simp: message_entry_def split: option.splits if_splits sum.splits)
qed

theorem C10_falsy_fields_witness:
  "get_prop item_empty_id ''id'' = Some (JStr []) \<and>
   conversation_entry (numToString test_platform) item_empty_id = Inr None \<and>
   list_loop (numToString test_platform) [item_empty_id] (sample_conversations, 1) =
     Inr (sample_conversations, 1) \<and>
   opt_member (get_prop node_empty_id ''message'') ''id'' = Some (JStr []) \<and>
   detail_loop (numToString test_platform) [node_empty_id] (sample_timestamps, 1) =
     Inr (sample_timestamps, 1) \<and>
   conversation_entry (numToString test_platform) item_empty_title =
     Inr (Some (''c1'', \<lparr>conv_createTime = JStr ''2024-01-01T00:00:00Z'', updateTime = JNull,
                     title = JNull\<rparr>)) \<and>
   get_prop item_empty_title ''title'' = Some (JStr []) \<and>
   message_entry (numToString test_platform) (Some message_empty_role) =
     Inr (Some (''m1'', \<lparr>createTime = JNum 1700000000, role = JNull\<rparr>)) \<and>
   opt_member (opt_member (Some message_empty_role) ''author'') ''role'' = Some (JStr [])"
proof -
  have h1: "get_prop item_empty_id ''id'' = Some (JStr [])"
    by (simp add: item_empty_id_def)
  have h2: "opt_member (get_prop node_empty_id ''message'') ''id'' = Some (JStr [])"
    by (simp add: node_empty_id_def)
  have h3: "conversation_entry (numToString test_platform) item_empty_title =
     Inr (Some (''c1'', \<lparr>conv_createTime = JStr ''2024-01-01T00:00:00Z'', updateTime = JNull,
                     title = JNull\<rparr>))"
    by (simp add: item_empty_title_def conversation_entry_def)
  have h4: "get_prop item_empty_title ''title'' = Some (JStr [])"
    by (simp add: item_empty_title_def)
  have h5: "message_entry (numToString test_platform) (Some message_empty_role) =
     Inr (Some (''m1'', \<lparr>createTime = JNum 1700000000, role = JNull\<rparr>))"
    by (simp add: message_empty_role_def message_entry_def)
  have h6: "opt_member (opt_member (Some message_empty_role) ''author'') ''role'' = Some (JStr [])"
    by (simp add: message_empty_role_def)
  from C10_falsy_fields [of item_empty_id "numToString test_platform" "[]" sample_conversations 1
         node_empty_id "[]" sample_timestamps]
       C10_falsy_fields [where item = item_empty_title and ns = "numToString test_platform"
         and k = "''c1''"
         and e = "\<lparr>conv_createTime = JStr ''2024-01-01T00:00:00Z'', updateTime = JNull, title = JNull\<rparr>"
         and msg = "Some message_empty_role" and k' = "''m1''"
         and e' = "\<lparr>createTime = JNum 1700000000, role = JNull\<rparr>"]
       h1 h2 h3 h4 h5 h6
  show ?thesis by simp
qed

end
